theory Spec2Isabelle
  imports Main "HOL-Library.Sublist"
begin

section \<open>The program\<close>

subsection \<open>Proxy rotation: proxy_rotator.py and socks5_proxy_fetcher.py\<close>

text \<open>
  \<^verbatim>\<open>ProxyRotator\<close> and \<^verbatim>\<open>SOCKS5ProxyFetcher\<close> keep the same three fields and carry
  the same text for \<^verbatim>\<open>get_next_proxy\<close> and \<^verbatim>\<open>mark_proxy_failed\<close>. The pool is a
  record; the SOCKS5 fetcher extends it with the time of the last fetch. The lock is
  held for the whole body of each method, so each method is one function from state
  to state. \<^verbatim>\<open>current_index\<close> starts at 0 and is only ever assigned a value
  \<^verbatim>\<open>(i + 1) % len\<close> with a positive \<^verbatim>\<open>len\<close>, so it is a natural number. A list read
  \<^verbatim>\<open>valid_proxies[current_index]\<close> past the end raises \<^verbatim>\<open>IndexError\<close> in Python; the
  model returns it as a value.
\<close>

datatype py_error = IndexError

record pool =
  valid_proxies :: "string list"
  failed_proxies :: "string set"
  current_index :: nat

record socks5_pool = pool +
  last_fetch_time :: "nat option"

text \<open>
  The \<^verbatim>\<open>while attempts < len(self.valid_proxies)\<close> loop of \<^verbatim>\<open>get_next_proxy\<close>.
  \<open>Some (Inr p)\<close>: the loop returned \<open>p\<close>; \<open>Some (Inl e)\<close>: the list read raised;
  \<open>None\<close>: the loop ran out and control reaches the code after it.
\<close>

function skip_failed ::
  "nat \<Rightarrow> 'a pool_scheme \<Rightarrow> (py_error + string) option \<times> 'a pool_scheme" where
  "skip_failed attempts s =
     (if attempts < length (valid_proxies s) then
        (if current_index s < length (valid_proxies s) then
           (let proxy = valid_proxies s ! current_index s;
                s' = s\<lparr>current_index := (current_index s + 1) mod length (valid_proxies s)\<rparr>
            in if proxy \<notin> failed_proxies s' then (Some (Inr proxy), s')
               else skip_failed (attempts + 1) s')
         else (Some (Inl IndexError), s))
      else (None, s))"
  by pat_completeness auto
termination
  by (relation "measure (\<lambda>(attempts, s). length (valid_proxies s) - attempts)") auto

declare skip_failed.simps [simp del]

definition get_next_proxy :: "'a pool_scheme \<Rightarrow> (py_error + string option) \<times> 'a pool_scheme" where
  "get_next_proxy s =
     (if valid_proxies s = [] then (Inr None, s)
      else
        (case skip_failed 0 s of
           (Some (Inr proxy), s') \<Rightarrow> (Inr (Some proxy), s')
         | (Some (Inl e), s') \<Rightarrow> (Inl e, s')
         | (None, s') \<Rightarrow>
             (let s1 = s'\<lparr>failed_proxies := {}\<rparr> in
              if valid_proxies s1 \<noteq> [] then
                (if current_index s1 < length (valid_proxies s1) then
                   (Inr (Some (valid_proxies s1 ! current_index s1)),
                    s1\<lparr>current_index := (current_index s1 + 1) mod length (valid_proxies s1)\<rparr>)
                 else (Inl IndexError, s1))
              else (Inr None, s1))))"

definition mark_proxy_failed :: "string \<Rightarrow> 'a pool_scheme \<Rightarrow> 'a pool_scheme" where
  "mark_proxy_failed proxy s = s\<lparr>failed_proxies := insert proxy (failed_proxies s)\<rparr>"

text \<open>
  \<^verbatim>\<open>ProxyRotator.__init__\<close> followed by \<^verbatim>\<open>load_proxies\<close>: the list read from the proxy
  file (and filtered by the connectivity test when asked) is the parameter.
\<close>

definition init_proxy_rotator :: "string list \<Rightarrow> pool" where
  "init_proxy_rotator proxies =
     \<lparr>valid_proxies = proxies, failed_proxies = {}, current_index = 0\<rparr>"

text \<open>
  \<^verbatim>\<open>SOCKS5ProxyFetcher.fetch_fresh_proxies\<close>. The answer of the proxy API, already
  filtered, sorted by uptime and cut to \<^verbatim>\<open>limit\<close>, is the parameter: \<open>Inr\<close> the list
  of \<^verbatim>\<open>ip:port\<close> strings, \<open>Inl\<close> when the request raised (the method catches the
  exception and leaves the state as it was). \<open>now\<close> is the clock reading. The
  assignment replaces the list and clears the failure set; it does not touch
  \<^verbatim>\<open>current_index\<close>.
\<close>

definition fetch_fresh_proxies ::
  "string + string list \<Rightarrow> nat \<Rightarrow> socks5_pool \<Rightarrow> socks5_pool" where
  "fetch_fresh_proxies api now s =
     (case api of
        Inl e \<Rightarrow> s
      | Inr proxy_list \<Rightarrow>
          s\<lparr>valid_proxies := proxy_list, failed_proxies := {}, last_fetch_time := Some now\<rparr>)"

definition init_socks5 :: "string + string list \<Rightarrow> nat \<Rightarrow> socks5_pool" where
  "init_socks5 api now =
     fetch_fresh_proxies api now
       \<lparr>valid_proxies = [], failed_proxies = {}, current_index = 0, last_fetch_time = None\<rparr>"

text \<open>The cursor is usable: it points inside the list, or the list is empty.\<close>

definition cursor_ok :: "'a pool_scheme \<Rightarrow> bool" where
  "cursor_ok s = (valid_proxies s = [] \<or> current_index s < length (valid_proxies s))"

subsection \<open>Content identifier: ytscrp.py\<close>

text \<open>
  Python's \<^verbatim>\<open>sub in s\<close> on strings: \<open>sub\<close> occurs in \<open>s\<close> as a contiguous block.
\<close>

fun py_in :: "string \<Rightarrow> string \<Rightarrow> bool" where
  "py_in sub [] = (sub = [])"
| "py_in sub (c # cs) = (prefix sub (c # cs) \<or> py_in sub cs)"

text \<open>
  \<^verbatim>\<open>s.split(sep)\<close> for a non-empty separator: the string is cut at the occurrences of
  \<open>sep\<close> found from left to right, an occurrence starting only after the previous
  one has ended. Every call in the source passes a non-empty literal (Python raises
  \<^verbatim>\<open>ValueError\<close> on an empty one).
\<close>

fun py_split :: "string \<Rightarrow> string \<Rightarrow> string list" where
  "py_split sep [] = [[]]"
| "py_split sep (c # cs) =
     (if prefix sep (c # cs) then [] # py_split sep (drop (length sep - 1) cs)
      else (case py_split sep cs of [] \<Rightarrow> [[c]] | w # ws \<Rightarrow> (c # w) # ws))"

text \<open>
  A list read \<^verbatim>\<open>xs[i]\<close> with \<open>i \<ge> 0\<close>: out of range it raises \<^verbatim>\<open>IndexError\<close>.
\<close>

definition list_get :: "'a list \<Rightarrow> nat \<Rightarrow> py_error + 'a" where
  "list_get xs i = (if i < length xs then Inr (xs ! i) else Inl IndexError)"

text \<open>
  \<^verbatim>\<open>url.split(sep1)[1].split(sep2)[0]\<close>.
\<close>

definition segment :: "string \<Rightarrow> string \<Rightarrow> string \<Rightarrow> py_error + string" where
  "segment url sep1 sep2 =
     (case list_get (py_split sep1 url) 1 of
        Inl e \<Rightarrow> Inl e
      | Inr rest \<Rightarrow> list_get (py_split sep2 rest) 0)"

text \<open>
  \<^verbatim>\<open>generate_video_id_hash\<close>. \<^verbatim>\<open>hashlib.md5(x.encode()).hexdigest()\<close> belongs to the
  standard library and is the parameter \<open>md5_hexdigest\<close>; \<^verbatim>\<open>[:12]\<close> is \<open>take 12\<close>.
  \<^verbatim>\<open>if video_id:\<close> holds for a non-empty string.
\<close>

definition generate_video_id_hash :: "(string \<Rightarrow> string) \<Rightarrow> string \<Rightarrow> py_error + string" where
  "generate_video_id_hash md5_hexdigest url =
     (case (if py_in ''youtube.com/watch?v='' url then map_sum id Some (segment url ''watch?v='' ''&'')
            else if py_in ''youtu.be/'' url then map_sum id Some (segment url ''youtu.be/'' ''?'')
            else if py_in ''/video/'' url then map_sum id Some (segment url ''/video/'' ''/'')
            else Inr None) of
        Inl e \<Rightarrow> Inl e
      | Inr video_id \<Rightarrow>
          (case video_id of
             None \<Rightarrow> Inr (take 12 (md5_hexdigest url))
           | Some v \<Rightarrow>
               if v \<noteq> [] then Inr (take 12 (md5_hexdigest v))
               else Inr (take 12 (md5_hexdigest url))))"

text \<open>
  A video identifier as the sites issue them: non-empty and free of the characters that
  end the segment in one of the three URL shapes.
\<close>

definition plain_id :: "string \<Rightarrow> bool" where
  "plain_id vid =
     (vid \<noteq> [] \<and> CHR ''&'' \<notin> set vid \<and> CHR ''?'' \<notin> set vid \<and> CHR ''/'' \<notin> set vid
      \<and> CHR ''='' \<notin> set vid)"

subsection \<open>Duplicate lookup: ytscrp.py\<close>

text \<open>
  \<^verbatim>\<open>sanitize_filename\<close>. A character is a code point below 256. The first substitution
  replaces each of the nine characters of the class (angle brackets, colon, double
  quote, slash, backslash, bar, question mark, star) by an underscore, the second
  deletes the control characters 0x00-0x1f and 0x7f-0x9f, then the name is cut to 200
  characters and
  \<^verbatim>\<open>strip()\<close> removes white space at both ends. White space is what
  \<^verbatim>\<open>str.isspace\<close> accepts below 256: 9-13, 28-32, 133 and 160.
\<close>

definition is_forbidden :: "char \<Rightarrow> bool" where
  "is_forbidden c = (c \<in> set ''<>:/|?*'' \<or> c = CHR 0x22 \<or> c = CHR 0x5C)"

definition is_control :: "char \<Rightarrow> bool" where
  "is_control c = ((of_char c :: nat) \<le> 0x1f \<or> (0x7f \<le> (of_char c :: nat) \<and> (of_char c :: nat) \<le> 0x9f))"

definition is_space :: "char \<Rightarrow> bool" where
  "is_space c =
     (let n = (of_char c :: nat) in
      (9 \<le> n \<and> n \<le> 13) \<or> (28 \<le> n \<and> n \<le> 32) \<or> n = 133 \<or> n = 160)"

definition strip :: "string \<Rightarrow> string" where
  "strip s = rev (dropWhile is_space (rev (dropWhile is_space s)))"

definition sanitize_filename :: "string \<Rightarrow> string" where
  "sanitize_filename filename =
     strip (take 200 (filter (\<lambda>c. \<not> is_control c)
       (map (\<lambda>c. if is_forbidden c then CHR ''_'' else c) filename)))"

text \<open>
  \<^verbatim>\<open>str.lower()\<close> on code points below 256 (the letters A-Z and the capital letters
  192-222 other than the multiplication sign move up by 32) and \<^verbatim>\<open>str.split()\<close> (no
  argument: cut at runs of white space, no empty words).
\<close>

definition lower_char :: "char \<Rightarrow> char" where
  "lower_char c =
     (let n = (of_char c :: nat) in
      if (65 \<le> n \<and> n \<le> 90) \<or> (192 \<le> n \<and> n \<le> 222 \<and> n \<noteq> 215)
      then char_of (n + 32) else c)"

definition lower :: "string \<Rightarrow> string" where
  "lower s = map lower_char s"

fun split_ws :: "string \<Rightarrow> string \<Rightarrow> string list" where
  "split_ws w [] = (if w = [] then [] else [w])"
| "split_ws w (c # cs) =
     (if is_space c then (if w = [] then split_ws [] cs else w # split_ws [] cs)
      else split_ws (w @ [c]) cs)"

definition py_words :: "string \<Rightarrow> string list" where
  "py_words s = split_ws [] s"

text \<open>
  \<^verbatim>\<open>os.path.splitext\<close> on a name without directory part: the extension starts at the
  last dot, unless every character before that dot is a dot too.
\<close>

definition splitext :: "string \<Rightarrow> string \<times> string" where
  "splitext p =
     (if CHR ''.'' \<in> set p then
        (let dotIndex = length p - length (takeWhile (\<lambda>c. c \<noteq> CHR ''.'') (rev p)) - 1 in
         if list_ex (\<lambda>c. c \<noteq> CHR ''.'') (take dotIndex p)
         then (take dotIndex p, drop dotIndex p) else (p, []))
      else (p, []))"

text \<open>
  \<^verbatim>\<open>fnmatch\<close>, the pattern language of \<^verbatim>\<open>glob\<close>, as \<^verbatim>\<open>fnmatch.translate\<close> of the
  standard library reads it: \<open>*\<close> matches any run of characters, \<open>?\<close> any one
  character, \<open>[...]\<close> one character of a class, and every other character itself;
  matching is case sensitive, as on POSIX. A bracket opens a class when a closing
  bracket follows (one directly after the opening bracket or after \<open>[!\<close> is part
  of the class); otherwise it stands for itself. The text of the class is cut into
  chunks at the hyphens that make ranges (not the first character, nor the two
  characters after such a hyphen; a last hyphen stays in its chunk), ranges whose
  bounds are in the wrong order are taken out from right to left, and the class then
  holds the characters of the chunks and the ranges between one chunk's last and the
  next one's first character. A leading \<open>!\<close> of what is left negates the class.
\<close>

fun split_chunks :: "nat \<Rightarrow> string \<Rightarrow> string \<Rightarrow> string list" where
  "split_chunks skip cur [] = [cur]"
| "split_chunks skip cur (c # cs) =
     (if skip = 0 \<and> c = CHR ''-'' then
        (if cs = [] then [cur @ ''-''] else cur # split_chunks 2 [] cs)
      else split_chunks (skip - 1) (cur @ [c]) cs)"

fun remove_empty_ranges :: "string list \<Rightarrow> string list" where
  "remove_empty_ranges [] = []"
| "remove_empty_ranges [x] = [x]"
| "remove_empty_ranges (x # y # ys) =
     (case remove_empty_ranges (y # ys) of
        [] \<Rightarrow> [x]
      | z # zs \<Rightarrow>
          if x \<noteq> [] \<and> z \<noteq> [] \<and> (of_char (hd z) :: nat) < of_char (last x)
          then (butlast x @ tl z) # zs else x # z # zs)"

fun chunk_match :: "string list \<Rightarrow> char \<Rightarrow> bool" where
  "chunk_match [] c = False"
| "chunk_match [x] c = (c \<in> set x)"
| "chunk_match (x # y # ys) c =
     (c \<in> set x
      \<or> (x \<noteq> [] \<and> y \<noteq> [] \<and> (of_char (last x) :: nat) \<le> of_char c
          \<and> (of_char c :: nat) \<le> of_char (hd y))
      \<or> (x = [] \<and> c = CHR ''-'')
      \<or> chunk_match (y # ys) c)"

text \<open>
  In \<open>remove_empty_ranges\<close> and \<open>chunk_match\<close> no chunk is empty where its first
  or last character is read, except a first chunk that held only the \<open>!\<close>; the
  hyphen that joins it to the next chunk is then an ordinary member of the class.
\<close>

definition class_match :: "string \<Rightarrow> char \<Rightarrow> bool" where
  "class_match stuff c =
     (let chunks = remove_empty_ranges
            (split_chunks (if stuff \<noteq> [] \<and> hd stuff = CHR ''!'' then 2 else 1) [] stuff)
      in if chunks = [[]] then False
         else if chunks = [''!''] then True
         else (case chunks of
                 [] \<Rightarrow> False
               | first # rest \<Rightarrow>
                   if first \<noteq> [] \<and> hd first = CHR ''!'' then \<not> chunk_match (tl first # rest) c
                   else chunk_match chunks c))"

definition bracket :: "string \<Rightarrow> (string \<times> string) option" where
  "bracket ps =
     (let n1 = (if ps \<noteq> [] \<and> hd ps = CHR ''!'' then 1 else 0 :: nat);
          n2 = (if n1 < length ps \<and> ps ! n1 = CHR '']'' then n1 + 1 else n1);
          j = n2 + length (takeWhile (\<lambda>c. c \<noteq> CHR '']'') (drop n2 ps))
      in if j < length ps then Some (take j ps, drop (j + 1) ps) else None)"

lemma bracket_shorter: "bracket ps = Some (stuff, rest) \<Longrightarrow> length rest < length ps"
  by (auto simp: bracket_def Let_def split: if_splits)

function fnmatch :: "string \<Rightarrow> string \<Rightarrow> bool" where
  "fnmatch [] n = (n = [])"
| "fnmatch (p # ps) n =
     (if p = CHR ''*'' then
        (if fnmatch ps n then True
         else (case n of [] \<Rightarrow> False | c # cs \<Rightarrow> fnmatch (p # ps) cs))
      else
        (case n of
           [] \<Rightarrow> False
         | c # cs \<Rightarrow>
             if p = CHR ''?'' then fnmatch ps cs
             else if p = CHR ''['' then
               (case bracket ps of
                  None \<Rightarrow> c = CHR ''['' \<and> fnmatch ps cs
                | Some (stuff, rest) \<Rightarrow> class_match stuff c \<and> fnmatch rest cs)
             else p = c \<and> fnmatch ps cs))"
  by pat_completeness auto
termination
  by (relation "measure (\<lambda>(p, n). length p + length n)") (auto dest: bracket_shorter)

text \<open>
  What \<^verbatim>\<open>check_existing_file\<close> finds at \<^verbatim>\<open>download_dir\<close>: nothing
  (\<^verbatim>\<open>os.path.exists\<close> is false); a path that exists and cannot be listed, with the
  text of the error \<^verbatim>\<open>os.listdir\<close> raises and the names a lookup by exact name still
  finds (all of them when only the permission to read the directory is missing, none
  when it cannot be searched either); or the entries in listing order, each with
  \<^verbatim>\<open>os.path.isfile\<close> of it.
\<close>

datatype directory =
  Absent | Unlistable string "string list" | Entries "(string \<times> bool) list"

definition exact_names :: "directory \<Rightarrow> string list" where
  "exact_names d =
     (case d of Absent \<Rightarrow> [] | Unlistable msg names \<Rightarrow> names | Entries entries \<Rightarrow> map fst entries)"

definition listed_names :: "directory \<Rightarrow> string list" where
  "listed_names d =
     (case d of Absent \<Rightarrow> [] | Unlistable msg names \<Rightarrow> [] | Entries entries \<Rightarrow> map fst entries)"

text \<open>
  \<^verbatim>\<open>glob.glob(os.path.join(download_dir, pattern))\<close>, for a directory path without
  pattern characters and a pattern without a slash (the title has its slashes replaced
  and the content identifier is a run of hexadecimal digits). A pattern without
  \<open>*\<close>, \<open>?\<close> and \<open>[\<close> is looked up by name (\<^verbatim>\<open>os.path.lexists\<close>). Any other
  pattern is matched against the listing, in listing order; a listing that fails
  counts as empty, and a name starting with a dot is matched only by a pattern starting
  with a dot.
\<close>

definition has_magic :: "string \<Rightarrow> bool" where
  "has_magic pattern =
     (CHR ''*'' \<in> set pattern \<or> CHR ''?'' \<in> set pattern \<or> CHR ''['' \<in> set pattern)"

definition is_hidden :: "string \<Rightarrow> bool" where
  "is_hidden n = (case n of [] \<Rightarrow> False | c # cs \<Rightarrow> c = CHR ''.'')"

definition glob :: "directory \<Rightarrow> string \<Rightarrow> string list" where
  "glob d pattern =
     (if has_magic pattern then
        filter (fnmatch pattern)
          (if is_hidden pattern then listed_names d
           else filter (\<lambda>n. \<not> is_hidden n) (listed_names d))
      else if pattern \<in> set (exact_names d) then [pattern] else [])"

text \<open>
  The two nested loops over extensions and patterns return at the first pattern with a
  match; the patterns are tried in the order of the concatenation.
\<close>

definition possible_extensions :: "bool \<Rightarrow> string list" where
  "possible_extensions audio_only =
     (if \<not> audio_only then [''.mp4'', ''.webm'', ''.mkv'', ''.avi'', ''.mov'']
      else [''.mp3'', ''.m4a'', ''.webm'', ''.ogg''])"

definition patterns :: "string \<Rightarrow> string \<Rightarrow> string \<Rightarrow> string list" where
  "patterns sanitized_title video_id_hash ext =
     [sanitized_title @ ''_'' @ video_id_hash @ ext,
      sanitized_title @ ''_'' @ video_id_hash @ ''.f*'' @ ext,
      ''*'' @ video_id_hash @ ''*'' @ ext]"

fun first_glob_match :: "directory \<Rightarrow> string list \<Rightarrow> string option" where
  "first_glob_match d [] = None"
| "first_glob_match d (pattern # rest) =
     (case glob d pattern of
        [] \<Rightarrow> first_glob_match d rest
      | m # ms \<Rightarrow> Some m)"

text \<open>
  The similarity test. \<^verbatim>\<open>len(a & b) / len(a | b) > 0.7\<close> is a comparison of floats; for
  set sizes below \<open>10^15\<close> the quotient of two integers exceeds the double nearest to
  0.7 exactly when \<open>10 * len(a & b) > 7 * len(a | b)\<close>, which is what the model
  compares.
\<close>

definition similar :: "string \<Rightarrow> string \<Rightarrow> bool" where
  "similar sanitized_title existing_name =
     (let title_words = set (py_words (lower sanitized_title));
          existing_words = set (py_words (lower existing_name))
      in 0 < card title_words \<and>
         7 * card (title_words \<union> existing_words) < 10 * card (title_words \<inter> existing_words))"

fun similar_file :: "string list \<Rightarrow> string \<Rightarrow> string list \<Rightarrow> string option" where
  "similar_file exts sanitized_title [] = None"
| "similar_file exts sanitized_title (existing_file # rest) =
     (let (existing_name, existing_ext) = splitext existing_file in
      if existing_ext \<notin> set exts then similar_file exts sanitized_title rest
      else if similar sanitized_title existing_name then Some existing_file
      else similar_file exts sanitized_title rest)"

text \<open>
  \<^verbatim>\<open>check_existing_file\<close>. When no pattern finds a file, \<^verbatim>\<open>os.listdir\<close> lists the
  directory for the similarity test, or raises: \<open>Inl\<close> carries the text of the
  exception.
\<close>

definition check_existing_file ::
  "directory \<Rightarrow> string \<Rightarrow> string \<Rightarrow> bool \<Rightarrow> string + string option" where
  "check_existing_file download_dir title video_id_hash audio_only =
     (case download_dir of
        Absent \<Rightarrow> Inr None
      | _ \<Rightarrow>
          (let sanitized_title = sanitize_filename title;
               exts = possible_extensions audio_only
           in case first_glob_match download_dir
                     (concat (map (patterns sanitized_title video_id_hash) exts)) of
                Some m \<Rightarrow> Inr (Some m)
              | None \<Rightarrow>
                  (case download_dir of
                     Unlistable msg names \<Rightarrow> Inl msg
                   | Entries entries \<Rightarrow>
                       Inr (similar_file exts sanitized_title (map fst (filter snd entries)))
                   | Absent \<Rightarrow> Inr None)))"

subsection \<open>Task orchestration: ytscrp.py\<close>

text \<open>
  The item statuses of \<^verbatim>\<open>VideoDownload.status\<close> and the task statuses written by
  \<^verbatim>\<open>start_download\<close> and \<^verbatim>\<open>process_download_enhanced\<close>. The source holds them as
  strings; only these literals are ever assigned.
\<close>

datatype item_status = Pending | Checking | Skipped | Downloading | Completed | Failed

datatype task_phase = T_initializing | T_fetching | T_downloading | T_completed | T_failed

text \<open>
  \<^verbatim>\<open>VideoDownload\<close>, without the fields that no branch reads: progress, speed, ETA,
  byte sizes and the two time stamps. \<^verbatim>\<open>progress_hook\<close> writes only those fields, so
  it changes nothing of this record.
\<close>

record video_download =
  url :: string
  title :: string
  status :: item_status
  filename :: string
  error :: string
  video_id_hash :: string
  skipped_reason :: string

text \<open>
  One entry of the list \<^verbatim>\<open>get_video_info_detailed\<close> returns: it always carries the
  three keys. The request, reduced to the options the worker reads.
\<close>

record video_info =
  info_url :: string
  info_title :: string
  info_video_id_hash :: string

record download_request =
  max_videos :: "int option"
  audio_only :: bool
  skip_duplicates :: bool

text \<open>
  What the world outside answers. \<open>setup_error\<close>: an exception of
  \<^verbatim>\<open>get_shared_download_dir\<close> or \<^verbatim>\<open>os.makedirs\<close>. \<open>resolved\<close>: the list returned by
  \<^verbatim>\<open>get_video_info_detailed\<close>, which catches its own exceptions and returns the empty
  list. \<open>main_loop_set\<close>: \<^verbatim>\<open>MAIN_LOOP is not None\<close>. For the worker of item \<open>i\<close>:
  \<open>dir_at i\<close> is the download directory as the duplicate check finds it;
  \<open>skip_getsize_error i\<close> and \<open>done_getsize_error i\<close> are the exception, if any, of
  \<^verbatim>\<open>os.path.getsize\<close> on the existing file and on the downloaded file; \<open>fetch i\<close> is
  the outcome of lines 809-841: the provider or the file search raised, or they
  returned with the resolved \<^verbatim>\<open>downloaded_filename\<close> (\<open>None\<close> when no file was found).
  \<open>zip_error\<close>: an exception of \<^verbatim>\<open>create_task_zip_file\<close>.
\<close>

datatype fetch_result = FetchRaised string | FetchReturned "string option"

record environment =
  setup_error :: "string option"
  resolved :: "video_info list"
  main_loop_set :: bool
  dir_at :: "nat \<Rightarrow> directory"
  skip_getsize_error :: "nat \<Rightarrow> string option"
  done_getsize_error :: "nat \<Rightarrow> string option"
  fetch :: "nat \<Rightarrow> fetch_result"
  zip_error :: "string option"

text \<open>
  Every write to \<^verbatim>\<open>tasks_storage\<close> and \<^verbatim>\<open>video_downloads\<close> happens inside a
  \<^verbatim>\<open>with storage_lock\<close> block, so the blocks are the atomic steps, and a snapshot
  (\<^verbatim>\<open>get_status\<close>, also under the lock) sees the state between two of them. A worker
  and the orchestrating coroutine each carry a program counter that says which block
  comes next. \<open>W_handler msg\<close>: an exception with text \<open>msg\<close> left a block after the
  block had written, and the \<^verbatim>\<open>except\<close> clause has still to run.
\<close>

datatype worker_pc = W_start | W_check | W_fetch | W_handler string | W_done

datatype orch_pc = O_start | O_fetching | O_resolved | O_submit | O_wave | O_done

text \<open>
  The entry of one task in \<^verbatim>\<open>tasks_storage\<close> (the fields that carry status and
  counters; the three counts written only by \<^verbatim>\<open>send_video_progress_update\<close> are absent
  until it first runs), its list in \<^verbatim>\<open>video_downloads\<close>, and the program counters.
\<close>

record config =
  task_status :: task_phase
  progress :: nat
  total_videos :: "int option"
  success_count :: nat
  failure_count :: nat
  downloading_count :: "nat option"
  checking_count :: "nat option"
  skipped_count :: "nat option"
  zip_available :: bool
  completed :: bool
  items :: "video_download list"
  pcs :: "worker_pc list"
  opc :: orch_pc

definition count_status :: "(item_status \<Rightarrow> bool) \<Rightarrow> video_download list \<Rightarrow> nat" where
  "count_status P videos = length (filter (\<lambda>v. P (status v)) videos)"

definition succeeded :: "item_status \<Rightarrow> bool" where
  "succeeded st = (st = Completed \<or> st = Skipped)"

text \<open>
  \<^verbatim>\<open>start_download\<close> creates the entry; \<^verbatim>\<open>update_task_status_realtime\<close> and
  \<^verbatim>\<open>send_video_progress_update\<close> are the two writers of the task entry outside the
  workers.
\<close>

definition start_download :: "download_request \<Rightarrow> config" where
  "start_download request =
     \<lparr>task_status = T_initializing, progress = 0, total_videos = max_videos request,
      success_count = 0, failure_count = 0, downloading_count = None, checking_count = None,
      skipped_count = None, zip_available = False, completed = False,
      items = [], pcs = [], opc = O_start\<rparr>"

definition update_task_status_realtime ::
  "task_phase \<Rightarrow> nat \<Rightarrow> int option \<Rightarrow> bool \<Rightarrow> bool \<Rightarrow> config \<Rightarrow> config" where
  "update_task_status_realtime st prog tot zip_av fin c =
     c\<lparr>task_status := st, progress := prog, total_videos := tot,
       zip_available := zip_av, completed := fin\<rparr>"

definition send_video_progress_update :: "config \<Rightarrow> config" where
  "send_video_progress_update c =
     c\<lparr>progress := count_status succeeded (items c),
       success_count := count_status succeeded (items c),
       failure_count := count_status (\<lambda>st. st = Failed) (items c),
       downloading_count := Some (count_status (\<lambda>st. st = Downloading) (items c)),
       checking_count := Some (count_status (\<lambda>st. st = Checking) (items c)),
       skipped_count := Some (count_status (\<lambda>st. st = Skipped) (items c))\<rparr>"

text \<open>
  \<^verbatim>\<open>process_download_enhanced\<close>, one locked block (or one failure exit) per step.
  Both the early exit on an empty list and the \<^verbatim>\<open>except\<close> clause write status
  \<^verbatim>\<open>failed\<close>, progress 0 and \<^verbatim>\<open>request.max_videos\<close> as the total. The last step waits
  for every future: it is taken only when all workers are done.
\<close>

definition new_video_download :: "video_info \<Rightarrow> video_download" where
  "new_video_download info =
     \<lparr>url = info_url info,
      title = take 120 (if info_title info \<noteq> [] then info_title info else ''Unknown Video''),
      status = Pending, filename = [], error = [],
      video_id_hash = info_video_id_hash info, skipped_reason = []\<rparr>"

definition task_failed :: "download_request \<Rightarrow> config \<Rightarrow> config" where
  "task_failed request c =
     (update_task_status_realtime T_failed 0 (max_videos request) False True c)\<lparr>opc := O_done\<rparr>"

definition process_download_enhanced ::
  "environment \<Rightarrow> download_request \<Rightarrow> config \<Rightarrow> config" where
  "process_download_enhanced env request c =
     (case opc c of
        O_start \<Rightarrow>
          (update_task_status_realtime T_fetching 0 (max_videos request) False False c)
            \<lparr>opc := O_fetching\<rparr>
      | O_fetching \<Rightarrow>
          (if setup_error env \<noteq> None then task_failed request c
           else if resolved env = [] then task_failed request c
           else c\<lparr>items := map new_video_download (resolved env),
                  total_videos := Some (int (length (resolved env))),
                  opc := O_resolved\<rparr>)
      | O_resolved \<Rightarrow>
          (update_task_status_realtime T_downloading 0
             (Some (int (length (resolved env)))) False False c)\<lparr>opc := O_submit\<rparr>
      | O_submit \<Rightarrow>
          (if \<not> main_loop_set env then task_failed request c
           else c\<lparr>pcs := replicate (length (resolved env)) W_start, opc := O_wave\<rparr>)
      | O_wave \<Rightarrow>
          (if list_all (\<lambda>pc. pc = W_done) (pcs c) then
             (if zip_error env \<noteq> None then task_failed request c
              else (update_task_status_realtime T_completed
                      (count_status succeeded (items c))
                      (Some (int (length (resolved env)))) True True c)\<lparr>opc := O_done\<rparr>)
           else c)
      | O_done \<Rightarrow> c)"

text \<open>
  \<^verbatim>\<open>download_single_video\<close>, one locked block per step. An exception raised outside a
  block (by the duplicate check or by the provider) reaches the \<^verbatim>\<open>except\<close> clause
  with the state unchanged, so the step runs the clause at once. The branch that finds
  no downloaded file writes what the clause writes, with its own message. The three
  length tests hold in every reachable state (lemma \<open>task_inv_run\<close>); they keep the
  list reads inside the lists.
\<close>

definition except_handler :: "string \<Rightarrow> nat \<Rightarrow> config \<Rightarrow> config" where
  "except_handler msg index c =
     (let videos = (items c)[index := (items c ! index)\<lparr>status := Failed, error := msg\<rparr>]
      in c\<lparr>items := videos,
            failure_count := count_status (\<lambda>st. st = Failed) videos,
            pcs := (pcs c)[index := W_done]\<rparr>)"

definition mark_downloading :: "nat \<Rightarrow> config \<Rightarrow> config" where
  "mark_downloading index c =
     c\<lparr>items := (items c)[index :=
            (items c ! index)\<lparr>status := Downloading, error := [], filename := []\<rparr>],
       pcs := (pcs c)[index := W_fetch]\<rparr>"

definition download_single_video ::
  "environment \<Rightarrow> download_request \<Rightarrow> nat \<Rightarrow> config \<Rightarrow> config" where
  "download_single_video env request index c =
     (if index < length (pcs c) \<and> index < length (items c) \<and> index < length (resolved env) then
        (let video_info = resolved env ! index in
         case pcs c ! index of
           W_start \<Rightarrow>
             c\<lparr>items := (items c)[index :=
                    (items c ! index)\<lparr>status := Checking,
                       video_id_hash := info_video_id_hash video_info\<rparr>],
               pcs := (pcs c)[index := W_check]\<rparr>
         | W_check \<Rightarrow>
             (if skip_duplicates request then
                (case check_existing_file (dir_at env index) (info_title video_info)
                        (info_video_id_hash video_info) (audio_only request) of
                   Inl msg \<Rightarrow> except_handler msg index c
                 | Inr existing \<Rightarrow>
                     (case existing of
                        None \<Rightarrow> mark_downloading index c
                      | Some existing_file \<Rightarrow>
                          if existing_file = [] then mark_downloading index c
                          else
                            (case skip_getsize_error env index of
                               Some msg \<Rightarrow>
                                 c\<lparr>items := (items c)[index :=
                                        (items c ! index)\<lparr>status := Skipped,
                                          filename := existing_file\<rparr>],
                                   pcs := (pcs c)[index := W_handler msg]\<rparr>
                             | None \<Rightarrow>
                                 (let videos = (items c)[index :=
                                        (items c ! index)\<lparr>status := Skipped,
                                          filename := existing_file,
                                          skipped_reason := ''Already exists: '' @ existing_file\<rparr>]
                                  in c\<lparr>items := videos,
                                        progress := count_status succeeded videos,
                                        success_count := count_status succeeded videos,
                                        pcs := (pcs c)[index := W_done]\<rparr>))))
              else mark_downloading index c)
         | W_fetch \<Rightarrow>
             (case fetch env index of
                FetchRaised msg \<Rightarrow> except_handler msg index c
              | FetchReturned downloaded \<Rightarrow>
                  (case downloaded of
                     Some downloaded_filename \<Rightarrow>
                       if downloaded_filename \<noteq> [] then
                         (case done_getsize_error env index of
                            Some msg \<Rightarrow>
                              c\<lparr>items := (items c)[index :=
                                     (items c ! index)\<lparr>status := Completed,
                                       filename := downloaded_filename\<rparr>],
                                pcs := (pcs c)[index := W_handler msg]\<rparr>
                          | None \<Rightarrow>
                              (let videos = (items c)[index :=
                                     (items c ! index)\<lparr>status := Completed,
                                       filename := downloaded_filename\<rparr>]
                               in c\<lparr>items := videos,
                                     progress := count_status succeeded videos,
                                     success_count := count_status succeeded videos,
                                     pcs := (pcs c)[index := W_done]\<rparr>))
                       else except_handler ''Downloaded but file not found'' index c
                   | None \<Rightarrow> except_handler ''Downloaded but file not found'' index c))
         | W_handler msg \<Rightarrow> except_handler msg index c
         | W_done \<Rightarrow> c)
      else c)"

text \<open>
  A run is a list of events: the orchestrator takes its next step, worker \<open>i\<close> takes
  its next step, or a queued \<^verbatim>\<open>send_video_progress_update\<close> runs. Every interleaving of
  the thread pool is such a list; an event that is not enabled changes nothing.
\<close>

datatype event = Orchestrate | Work nat | Publish

definition step :: "environment \<Rightarrow> download_request \<Rightarrow> config \<Rightarrow> event \<Rightarrow> config" where
  "step env request c ev =
     (case ev of
        Orchestrate \<Rightarrow> process_download_enhanced env request c
      | Work index \<Rightarrow> download_single_video env request index c
      | Publish \<Rightarrow> send_video_progress_update c)"

definition run :: "environment \<Rightarrow> download_request \<Rightarrow> event list \<Rightarrow> config" where
  "run env request evs = foldl (step env request) (start_download request) evs"

text \<open>
  The worker wave has finished: workers were submitted for all items and all are done.
\<close>

definition wave_finished :: "config \<Rightarrow> bool" where
  "wave_finished c = (length (pcs c) = length (items c) \<and> list_all (\<lambda>pc. pc = W_done) (pcs c))"

section \<open>Invariants, schedules and example tasks\<close>

subsection \<open>Items and their workers\<close>

text \<open>
  What the answers of the world make of item \<open>i\<close>. \<open>dup_result\<close> is the outcome
  of the duplicate check as the worker runs it (no check, hence no match, when
  \<^verbatim>\<open>skip_duplicates\<close> is off); \<open>reaches_fetch\<close> says the worker gets past the check;
  \<open>final_outcome\<close> is the status and error text the answers lead to.
\<close>

definition dup_result :: "environment \<Rightarrow> download_request \<Rightarrow> nat \<Rightarrow> string + string option" where
  "dup_result env request i =
     (if skip_duplicates request then
        check_existing_file (dir_at env i) (info_title (resolved env ! i))
          (info_video_id_hash (resolved env ! i)) (audio_only request)
      else Inr None)"

definition reaches_fetch :: "environment \<Rightarrow> download_request \<Rightarrow> nat \<Rightarrow> bool" where
  "reaches_fetch env request i =
     (case dup_result env request i of
        Inl msg \<Rightarrow> False
      | Inr existing \<Rightarrow> (case existing of None \<Rightarrow> True | Some f \<Rightarrow> f = []))"

definition fetch_outcome :: "environment \<Rightarrow> nat \<Rightarrow> item_status \<times> string" where
  "fetch_outcome env i =
     (case fetch env i of
        FetchRaised msg \<Rightarrow> (Failed, msg)
      | FetchReturned downloaded \<Rightarrow>
          (case downloaded of
             None \<Rightarrow> (Failed, ''Downloaded but file not found'')
           | Some f \<Rightarrow>
               if f = [] then (Failed, ''Downloaded but file not found'')
               else (case done_getsize_error env i of
                       None \<Rightarrow> (Completed, [])
                     | Some msg \<Rightarrow> (Failed, msg))))"

definition final_outcome :: "environment \<Rightarrow> download_request \<Rightarrow> nat \<Rightarrow> item_status \<times> string" where
  "final_outcome env request i =
     (case dup_result env request i of
        Inl msg \<Rightarrow> (Failed, msg)
      | Inr existing \<Rightarrow>
          (case existing of
             None \<Rightarrow> fetch_outcome env i
           | Some f \<Rightarrow>
               if f = [] then fetch_outcome env i
               else (case skip_getsize_error env i of
                       None \<Rightarrow> (Skipped, [])
                     | Some msg \<Rightarrow> (Failed, msg))))"

text \<open>
  The state machine of an item: what its record holds at each program counter of its
  worker.
\<close>

definition pc_inv ::
  "environment \<Rightarrow> download_request \<Rightarrow> nat \<Rightarrow> worker_pc \<Rightarrow> video_download \<Rightarrow> bool" where
  "pc_inv env request i pc v =
     (case pc of
        W_start \<Rightarrow> status v = Pending \<and> error v = []
      | W_check \<Rightarrow> status v = Checking \<and> error v = []
      | W_fetch \<Rightarrow> status v = Downloading \<and> error v = [] \<and> reaches_fetch env request i
      | W_handler msg \<Rightarrow>
          (status v = Skipped \<or> status v = Completed) \<and> final_outcome env request i = (Failed, msg)
      | W_done \<Rightarrow> (status v, error v) = final_outcome env request i)"

text \<open>
  No step of the orchestrating coroutine raises and the target lists at least one
  item.
\<close>

definition env_ok :: "environment \<Rightarrow> bool" where
  "env_ok env =
     (setup_error env = None \<and> resolved env \<noteq> [] \<and> main_loop_set env \<and> zip_error env = None)"

text \<open>
  What holds at each program counter of the orchestrating coroutine, and the invariant
  of a task: the counters agree in length, every item is where its worker's program
  counter says, items without a worker are untouched, and \<^verbatim>\<open>failure_count\<close> is the
  number of failed items.
\<close>

definition orch_inv :: "environment \<Rightarrow> config \<Rightarrow> bool" where
  "orch_inv env c =
     (case opc c of
        O_start \<Rightarrow> items c = [] \<and> pcs c = [] \<and> task_status c = T_initializing
      | O_fetching \<Rightarrow> items c = [] \<and> pcs c = [] \<and> task_status c = T_fetching
      | O_resolved \<Rightarrow>
          pcs c = [] \<and> length (items c) = length (resolved env) \<and> resolved env \<noteq> []
          \<and> setup_error env = None \<and> task_status c = T_fetching
      | O_submit \<Rightarrow>
          pcs c = [] \<and> length (items c) = length (resolved env) \<and> resolved env \<noteq> []
          \<and> setup_error env = None \<and> task_status c = T_downloading
      | O_wave \<Rightarrow>
          length (pcs c) = length (items c) \<and> length (items c) = length (resolved env)
          \<and> resolved env \<noteq> [] \<and> setup_error env = None \<and> main_loop_set env
          \<and> task_status c = T_downloading
      | O_done \<Rightarrow>
          (if env_ok env then
             task_status c = T_completed \<and> wave_finished c
             \<and> length (items c) = length (resolved env)
             \<and> total_videos c = Some (int (length (items c)))
             \<and> progress c = count_status succeeded (items c)
           else task_status c = T_failed))"

definition task_inv :: "environment \<Rightarrow> download_request \<Rightarrow> config \<Rightarrow> bool" where
  "task_inv env request c =
     ((pcs c = [] \<or> length (pcs c) = length (items c))
      \<and> (items c = [] \<or> length (items c) = length (resolved env))
      \<and> (\<forall>i < length (pcs c). pc_inv env request i (pcs c ! i) (items c ! i))
      \<and> (pcs c = [] \<longrightarrow> (\<forall>v \<in> set (items c). status v = Pending \<and> error v = []))
      \<and> failure_count c = count_status (\<lambda>st. st = Failed) (items c)
      \<and> orch_inv env c)"

subsection \<open>A schedule that finishes\<close>

text \<open>
  The blocks a worker still has to run at most, and a schedule that lets every task
  end: the orchestrator takes its four steps up to the submission, each worker in turn
  takes four steps, and the orchestrator takes its last step.
\<close>

fun remaining :: "worker_pc \<Rightarrow> nat" where
  "remaining W_start = 4"
| "remaining W_check = 3"
| "remaining W_fetch = 2"
| "remaining (W_handler msg) = 1"
| "remaining W_done = 0"

definition wave_schedule :: "nat \<Rightarrow> event list" where
  "wave_schedule n = concat (map (\<lambda>i. replicate 4 (Work i)) [0..<n])"

definition finishing_schedule :: "nat \<Rightarrow> event list" where
  "finishing_schedule n = replicate 4 Orchestrate @ wave_schedule n @ [Orchestrate]"

subsection \<open>Two example tasks\<close>

text \<open>
  A task of three items in an empty download directory, the second of which the
  provider refuses, with one interleaving of its workers; and a task of one item whose
  download directory can be neither listed nor searched.
\<close>

definition demo_env :: environment where
  "demo_env =
     \<lparr>setup_error = None,
      resolved = [\<lparr>info_url = ''https://youtu.be/aaa'', info_title = ''One'',
                    info_video_id_hash = ''h1''\<rparr>,
                  \<lparr>info_url = ''https://youtu.be/bbb'', info_title = ''Two'',
                    info_video_id_hash = ''h2''\<rparr>,
                  \<lparr>info_url = ''https://youtu.be/ccc'', info_title = ''Three'',
                    info_video_id_hash = ''h3''\<rparr>],
      main_loop_set = True,
      dir_at = (\<lambda>i. Entries []),
      skip_getsize_error = (\<lambda>i. None),
      done_getsize_error = (\<lambda>i. None),
      fetch = (\<lambda>i. if i = 1 then FetchRaised ''HTTP Error 403: Forbidden''
                     else FetchReturned (Some ''file.mp4'')),
      zip_error = None\<rparr>"

definition demo_request :: download_request where
  "demo_request = \<lparr>max_videos = Some 10, audio_only = False, skip_duplicates = True\<rparr>"

definition demo_schedule :: "event list" where
  "demo_schedule =
     [Orchestrate, Orchestrate, Orchestrate, Orchestrate,
      Work 0, Work 1, Work 2, Work 1, Publish, Work 1, Work 0, Work 2, Work 0, Publish, Work 2,
      Orchestrate, Publish]"

definition unreadable_env :: environment where
  "unreadable_env =
     \<lparr>setup_error = None,
      resolved = [\<lparr>info_url = ''https://youtu.be/aaa'', info_title = ''One'',
                    info_video_id_hash = ''h1''\<rparr>],
      main_loop_set = True,
      dir_at = (\<lambda>i. Unlistable ''[Errno 13] Permission denied'' []),
      skip_getsize_error = (\<lambda>i. None),
      done_getsize_error = (\<lambda>i. None),
      fetch = (\<lambda>i. FetchReturned (Some ''file.mp4'')),
      zip_error = None\<rparr>"

definition unreadable_schedule :: "event list" where
  "unreadable_schedule =
     [Orchestrate, Orchestrate, Orchestrate, Orchestrate, Work 0, Work 0, Work 0, Orchestrate]"

section \<open>Proxy rotation\<close>

subsection \<open>The rotation loop\<close>

lemma skip_failed_frame:
  "skip_failed a s = (r, s') \<Longrightarrow>
     valid_proxies s' = valid_proxies s \<and> failed_proxies s' = failed_proxies s \<and>
     pool.more s' = pool.more s"
proof (induction a s arbitrary: r s' rule: skip_failed.induct)
  case (1 attempts s)
  show ?case
  proof (cases "attempts < length (valid_proxies s) \<and> current_index s < length (valid_proxies s)
      \<and> valid_proxies s ! current_index s \<in> failed_proxies s")
    case True
    let ?t = "s\<lparr>current_index := (current_index s + 1) mod length (valid_proxies s)\<rparr>"
    from True "1.prems" have "skip_failed (attempts + 1) ?t = (r, s')"
      by (subst (asm) skip_failed.simps) (simp add: Let_def)
    with True "1.IH" [of "valid_proxies s ! current_index s" ?t r s'] show ?thesis
      by simp
  next
    case False
    with "1.prems" show ?thesis
      by (subst (asm) skip_failed.simps) (auto simp: Let_def split: if_splits)
  qed
qed

lemma skip_failed_all_failed:
  "current_index s < length (valid_proxies s) \<Longrightarrow>
   set (valid_proxies s) \<subseteq> failed_proxies s \<Longrightarrow>
   a \<le> length (valid_proxies s) \<Longrightarrow>
   skip_failed a s =
     (None, s\<lparr>current_index :=
        (current_index s + (length (valid_proxies s) - a)) mod length (valid_proxies s)\<rparr>)"
proof (induction a s rule: skip_failed.induct)
  case (1 attempts s)
  let ?n = "length (valid_proxies s)"
  show ?case
  proof (cases "attempts < ?n")
    case True
    let ?t = "s\<lparr>current_index := (current_index s + 1) mod ?n\<rparr>"
    have mem: "valid_proxies s ! current_index s \<in> failed_proxies s"
      using "1.prems" by (meson nth_mem subsetD)
    have pos: "0 < ?n"
      using "1.prems"(1) by (cases "valid_proxies s") simp_all
    have idx: "current_index ?t < length (valid_proxies ?t)"
      using pos by simp
    have step: "skip_failed attempts s = skip_failed (attempts + 1) ?t"
      using True "1.prems"(1) mem by (subst skip_failed.simps) (simp add: Let_def)
    have "skip_failed (attempts + 1) ?t =
        (None, ?t\<lparr>current_index :=
           (current_index ?t + (length (valid_proxies ?t) - (attempts + 1)))
             mod length (valid_proxies ?t)\<rparr>)"
      using "1.IH" [of "valid_proxies s ! current_index s" ?t] True "1.prems" mem idx
      by simp
    moreover have "((current_index s + 1) mod ?n + (?n - (attempts + 1))) mod ?n
        = (current_index s + (?n - attempts)) mod ?n"
    proof -
      have "((current_index s + 1) mod ?n + (?n - (attempts + 1))) mod ?n
          = ((current_index s + 1) + (?n - (attempts + 1))) mod ?n"
        by (simp add: mod_add_left_eq)
      also have "(current_index s + 1) + (?n - (attempts + 1)) = current_index s + (?n - attempts)"
        using True by simp
      finally show ?thesis .
    qed
    ultimately show ?thesis
      using step by simp
  next
    case False
    with "1.prems" have eq: "attempts = ?n" by simp
    have "skip_failed attempts s = (None, s)"
      using False by (subst skip_failed.simps) simp
    moreover have "s\<lparr>current_index := (current_index s + (?n - attempts)) mod ?n\<rparr> = s"
      using eq "1.prems"(1) by simp
    ultimately show ?thesis by simp
  qed
qed

lemma skip_failed_in_range:
  "current_index s < length (valid_proxies s) \<Longrightarrow> skip_failed a s = (r, s') \<Longrightarrow>
     current_index s' < length (valid_proxies s) \<and> r \<noteq> Some (Inl e)"
proof (induction a s arbitrary: r s' rule: skip_failed.induct)
  case (1 attempts s)
  let ?n = "length (valid_proxies s)"
  let ?t = "s\<lparr>current_index := (current_index s + 1) mod ?n\<rparr>"
  show ?case
  proof (cases "attempts < ?n \<and> valid_proxies s ! current_index s \<in> failed_proxies s")
    case True
    have pos: "0 < ?n"
      using "1.prems"(1) by (cases "valid_proxies s") simp_all
    from True "1.prems" have "skip_failed (attempts + 1) ?t = (r, s')"
      by (subst (asm) skip_failed.simps) (simp add: Let_def)
    with True "1.prems"(1) pos "1.IH" [of "valid_proxies s ! current_index s" ?t r s']
    show ?thesis
      by simp
  next
    case False
    have pos: "0 < ?n"
      using "1.prems"(1) by (cases "valid_proxies s") simp_all
    with False "1.prems" show ?thesis
      by (subst (asm) skip_failed.simps) (auto simp: Let_def split: if_splits)
  qed
qed

lemma skip_failed_member:
  "skip_failed a s = (Some (Inr p), s') \<Longrightarrow>
     p \<in> set (valid_proxies s) \<and> p \<notin> failed_proxies s"
proof (induction a s arbitrary: s' rule: skip_failed.induct)
  case (1 attempts s)
  let ?n = "length (valid_proxies s)"
  let ?t = "s\<lparr>current_index := (current_index s + 1) mod ?n\<rparr>"
  show ?case
  proof (cases "attempts < ?n \<and> current_index s < ?n
      \<and> valid_proxies s ! current_index s \<in> failed_proxies s")
    case True
    from True "1.prems" have "skip_failed (attempts + 1) ?t = (Some (Inr p), s')"
      by (subst (asm) skip_failed.simps) (simp add: Let_def)
    with True "1.IH" [of "valid_proxies s ! current_index s" ?t s'] show ?thesis
      by simp
  next
    case False
    with "1.prems" show ?thesis
      by (subst (asm) skip_failed.simps) (auto simp: Let_def split: if_splits)
  qed
qed

subsection \<open>Properties of the pool\<close>

lemma fold_mark_proxy_failed:
  "fold mark_proxy_failed ps s = s\<lparr>failed_proxies := failed_proxies s \<union> set ps\<rparr>"
  by (induction ps arbitrary: s) (simp_all add: mark_proxy_failed_def Un_commute insert_commute)

text \<open>
  Self-healing with the cursor inside the list. In a non-empty pool whose endpoints are
  all in the failure set (the state reached by \<^verbatim>\<open>mark_proxy_failed\<close> on every
  endpoint), \<^verbatim>\<open>get_next_proxy\<close> walks the whole list once, clears the failure set and
  returns the endpoint at the cursor it started from, which is an endpoint of the pool;
  the cursor moves one place on. It does not return \<^verbatim>\<open>None\<close>.
\<close>

theorem all_failed_self_heals:
  assumes nonempty: "valid_proxies s \<noteq> []"
    and cursor: "current_index s < length (valid_proxies s)"
    and all_failed: "set (valid_proxies s) \<subseteq> failed_proxies s"
  shows "get_next_proxy s =
      (Inr (Some (valid_proxies s ! current_index s)),
       s\<lparr>failed_proxies := {},
         current_index := (current_index s + 1) mod length (valid_proxies s)\<rparr>)
    \<and> valid_proxies s ! current_index s \<in> set (valid_proxies s)"
proof -
  have "skip_failed 0 s = (None, s)"
    using skip_failed_all_failed [OF cursor all_failed, of 0] cursor by simp
  then show ?thesis
    using nonempty cursor by (simp add: get_next_proxy_def Let_def)
qed

text \<open>
  The scenario on a pool of three endpoints, each marked failed in turn.
\<close>

theorem all_failed_self_heals_witness:
  "get_next_proxy (fold mark_proxy_failed [''a:1'', ''b:2'', ''c:3'']
      (init_proxy_rotator [''a:1'', ''b:2'', ''c:3'']))
    = (Inr (Some ''a:1''),
       \<lparr>valid_proxies = [''a:1'', ''b:2'', ''c:3''], failed_proxies = {}, current_index = 1\<rparr>)"
  using all_failed_self_heals [of "fold mark_proxy_failed [''a:1'', ''b:2'', ''c:3'']
      (init_proxy_rotator [''a:1'', ''b:2'', ''c:3''])"]
  by (simp add: mark_proxy_failed_def init_proxy_rotator_def)

lemma get_next_proxy_cases:
  obtains (empty) "valid_proxies s = []" "get_next_proxy s = (Inr None, s)"
  | (found) p s' where "valid_proxies s \<noteq> []" "skip_failed 0 s = (Some (Inr p), s')"
      "get_next_proxy s = (Inr (Some p), s')"
  | (raised) e s' where "valid_proxies s \<noteq> []" "skip_failed 0 s = (Some (Inl e), s')"
      "get_next_proxy s = (Inl e, s')"
  | (wrapped) s' where "valid_proxies s \<noteq> []" "skip_failed 0 s = (None, s')"
      "current_index s' < length (valid_proxies s')"
      "get_next_proxy s = (Inr (Some (valid_proxies s' ! current_index s')),
         s'\<lparr>failed_proxies := {},
           current_index := (current_index s' + 1) mod length (valid_proxies s')\<rparr>)"
  | (wrapped_raised) s' where "valid_proxies s \<noteq> []" "skip_failed 0 s = (None, s')"
      "\<not> current_index s' < length (valid_proxies s')"
      "get_next_proxy s = (Inl IndexError, s'\<lparr>failed_proxies := {}\<rparr>)"
proof (cases "valid_proxies s = []")
  case True
  then show ?thesis using empty by (simp add: get_next_proxy_def)
next
  case False
  obtain r s' where r: "skip_failed 0 s = (r, s')" by (cases "skip_failed 0 s")
  from skip_failed_frame [OF r] False have ne: "valid_proxies s' \<noteq> []" by simp
  show ?thesis
  proof (cases r)
    case None
    with r False ne wrapped [of s'] wrapped_raised [of s'] show ?thesis
      by (cases "current_index s' < length (valid_proxies s')")
        (simp_all add: get_next_proxy_def Let_def)
  next
    case (Some x)
    with r False found [of _ s'] raised [of _ s'] show ?thesis
      by (cases x) (simp_all add: get_next_proxy_def)
  qed
qed

text \<open>
  \<^verbatim>\<open>get_next_proxy\<close> returns \<^verbatim>\<open>None\<close> exactly when the rotation list is empty; every
  endpoint it returns is a member of the rotation list; and on a non-empty list with
  the cursor inside it, it does return an endpoint. The function is total (the loop's
  termination is proved with its definition): it never waits.
\<close>

theorem get_next_proxy_none_iff_empty:
  "((fst (get_next_proxy s) = Inr None) = (valid_proxies s = []))
   \<and> (\<forall>p. fst (get_next_proxy s) = Inr (Some p) \<longrightarrow> p \<in> set (valid_proxies s))
   \<and> (valid_proxies s \<noteq> [] \<and> current_index s < length (valid_proxies s) \<longrightarrow>
        (\<exists>q. fst (get_next_proxy s) = Inr (Some q) \<and> q \<in> set (valid_proxies s)))"
proof (cases s rule: get_next_proxy_cases)
  case empty
  then show ?thesis by simp
next
  case (found p s')
  with skip_failed_member [OF found(2)] show ?thesis by simp
next
  case (raised e s')
  with skip_failed_in_range [of s 0 "Some (Inl e)" s' e] show ?thesis by auto
next
  case (wrapped s')
  with skip_failed_frame [OF wrapped(2)] show ?thesis by simp
next
  case (wrapped_raised s')
  with skip_failed_frame [OF wrapped_raised(2)]
    skip_failed_in_range [of s 0 None s'] show ?thesis by auto
qed

text \<open>
  A two-endpoint pool with the first endpoint failed: the hypotheses of the third part
  hold and an endpoint comes back.
\<close>

theorem get_next_proxy_none_iff_empty_witness:
  "valid_proxies (mark_proxy_failed ''a:1'' (init_proxy_rotator [''a:1'', ''b:2''])) \<noteq> []
   \<and> current_index (mark_proxy_failed ''a:1'' (init_proxy_rotator [''a:1'', ''b:2''])) < 2
   \<and> fst (get_next_proxy (mark_proxy_failed ''a:1'' (init_proxy_rotator [''a:1'', ''b:2'']))) \<noteq> Inr None
   \<and> (\<exists>q. fst (get_next_proxy (mark_proxy_failed ''a:1'' (init_proxy_rotator [''a:1'', ''b:2'']))) = Inr (Some q)
         \<and> q \<in> {''a:1'', ''b:2''})"
  using get_next_proxy_none_iff_empty
    [of "mark_proxy_failed ''a:1'' (init_proxy_rotator [''a:1'', ''b:2''])"]
  by (simp add: mark_proxy_failed_def init_proxy_rotator_def)

text \<open>
  Claim C9. Marking the same endpoint twice leaves exactly the state that marking it
  once leaves, and the endpoint is in the failure set afterwards.
\<close>

theorem mark_proxy_failed_idempotent:
  "mark_proxy_failed p (mark_proxy_failed p s) = mark_proxy_failed p s
   \<and> p \<in> failed_proxies (mark_proxy_failed p s)"
  by (simp add: mark_proxy_failed_def)

text \<open>
  The cursor stays inside the list under every operation of \<^verbatim>\<open>ProxyRotator\<close>, whose
  list is assigned once, when the pool is loaded.
\<close>

lemma cursor_ok_init: "cursor_ok (init_proxy_rotator proxies)"
  by (cases proxies) (simp_all add: cursor_ok_def init_proxy_rotator_def)

lemma cursor_ok_mark: "cursor_ok (mark_proxy_failed p s) = cursor_ok s"
  by (simp add: cursor_ok_def mark_proxy_failed_def)

lemma cursor_ok_next: "cursor_ok s \<Longrightarrow> cursor_ok (snd (get_next_proxy s))"
proof (cases s rule: get_next_proxy_cases)
  case empty
  then show ?thesis by (simp add: cursor_ok_def)
next
  case (found p s')
  assume "cursor_ok s"
  with found skip_failed_in_range [of s 0 "Some (Inr p)" s']
    skip_failed_frame [OF found(2)] show ?thesis
    by (simp add: cursor_ok_def)
next
  case (raised e s')
  assume "cursor_ok s"
  with raised skip_failed_in_range [of s 0 "Some (Inl e)" s' e] show ?thesis
    by (simp add: cursor_ok_def)
next
  case (wrapped s')
  then show ?thesis by (cases "valid_proxies s'") (simp_all add: cursor_ok_def)
next
  case (wrapped_raised s')
  assume "cursor_ok s"
  with wrapped_raised skip_failed_in_range [of s 0 None s']
    skip_failed_frame [OF wrapped_raised(2)] show ?thesis
    by (simp add: cursor_ok_def)
qed

text \<open>
  Claim C10. The SOCKS5 pool is fetched with three endpoints and two are handed out, so
  the cursor stands at 2. A refresh then replaces the list by a single endpoint and
  leaves the cursor where it was. The next \<^verbatim>\<open>get_next_proxy\<close> reads
  \<^verbatim>\<open>valid_proxies[2]\<close> of a one-element list: \<^verbatim>\<open>IndexError\<close>.
\<close>

theorem stale_cursor_after_refresh:
  "fst (get_next_proxy
     (fetch_fresh_proxies (Inr [''d:4'']) 1
       (snd (get_next_proxy (snd (get_next_proxy
         (init_socks5 (Inr [''a:1'', ''b:2'', ''c:3'']) 0)))))))
   = Inl IndexError"
  by (simp add: get_next_proxy_def init_socks5_def fetch_fresh_proxies_def
      skip_failed.simps Let_def)

lemma stale_cursor_state:
  "snd (get_next_proxy (snd (get_next_proxy
         (init_socks5 (Inr [''a:1'', ''b:2'', ''c:3'']) 0))))
   = \<lparr>valid_proxies = [''a:1'', ''b:2'', ''c:3''], failed_proxies = {}, current_index = 2,
       last_fetch_time = Some 0\<rparr>"
  by (simp add: get_next_proxy_def init_socks5_def fetch_fresh_proxies_def
      skip_failed.simps Let_def)

text \<open>
  Claim C3. On the SOCKS5 pool the claim fails. After the refresh above the cursor
  stands at 2 in a pool of the one endpoint \<^verbatim>\<open>d:4\<close>. That endpoint, the only one, is
  marked failed. The next \<^verbatim>\<open>get_next_proxy\<close> raises \<^verbatim>\<open>IndexError\<close> at its first list
  read: no endpoint is returned and the failure set is not cleared.
\<close>

theorem all_failed_stale_cursor_raises:
  "get_next_proxy
     (mark_proxy_failed ''d:4''
       (fetch_fresh_proxies (Inr [''d:4'']) 1
         (snd (get_next_proxy (snd (get_next_proxy
           (init_socks5 (Inr [''a:1'', ''b:2'', ''c:3'']) 0)))))))
   = (Inl IndexError,
      \<lparr>valid_proxies = [''d:4''], failed_proxies = {''d:4''}, current_index = 2,
        last_fetch_time = Some 1\<rparr>)"
  by (simp add: get_next_proxy_def init_socks5_def fetch_fresh_proxies_def
      mark_proxy_failed_def skip_failed.simps Let_def)

text \<open>
  Claim C6. On the SOCKS5 pool the claim fails. Two endpoints are fetched and one is
  handed out, so the cursor stands at 1; a refresh leaves the single endpoint
  \<^verbatim>\<open>c:3\<close>. The rotation list is not empty, and \<^verbatim>\<open>get_next_proxy\<close> returns neither
  a member of it nor \<^verbatim>\<open>None\<close>: it raises \<^verbatim>\<open>IndexError\<close>.
\<close>

theorem nonempty_stale_pool_returns_nothing:
  "valid_proxies
     (fetch_fresh_proxies (Inr [''c:3'']) 1
       (snd (get_next_proxy (init_socks5 (Inr [''a:1'', ''b:2'']) 0)))) = [''c:3'']
   \<and> fst (get_next_proxy
     (fetch_fresh_proxies (Inr [''c:3'']) 1
       (snd (get_next_proxy (init_socks5 (Inr [''a:1'', ''b:2'']) 0))))) = Inl IndexError"
  by (simp add: get_next_proxy_def init_socks5_def fetch_fresh_proxies_def
      skip_failed.simps Let_def)

section \<open>Content identifier\<close>

subsection \<open>Splitting at a marker\<close>

lemma py_split_nonempty: "py_split sep s \<noteq> []"
  by (induction s) (auto split: list.splits)

lemma py_in_set: "py_in sub s \<Longrightarrow> set sub \<subseteq> set s"
proof (induction s)
  case Nil
  then show ?case by simp
next
  case (Cons c cs)
  show ?case
  proof (cases "prefix sub (c # cs)")
    case True
    then show ?thesis by (rule set_mono_prefix)
  next
    case False
    with Cons show ?thesis by auto
  qed
qed

lemma py_in_prefix: "prefix sub s \<Longrightarrow> py_in sub s"
  by (cases s) simp_all

lemma py_in_append: "py_in sub (a @ sub @ b)"
  by (induction a) (simp_all add: py_in_prefix)

lemma py_in_suffix: "py_in sub s \<Longrightarrow> py_in sub (x # s)"
  by simp

lemma py_in_of_longer: "py_in (x @ sub) s \<Longrightarrow> py_in sub s"
proof (induction s)
  case Nil
  then show ?case by simp
next
  case (Cons c cs)
  show ?case
  proof (cases "prefix (x @ sub) (c # cs)")
    case True
    then obtain r where "c # cs = x @ sub @ r" by (auto simp: prefix_def)
    then show ?thesis using py_in_append [of sub x r] by simp
  next
    case False
    with Cons show ?thesis by simp
  qed
qed

lemma py_split_no_sep: "\<not> py_in sep s \<Longrightarrow> py_split sep s = [s]"
  by (induction s) auto

lemma py_split_two: "sep \<noteq> [] \<Longrightarrow> py_in sep s \<Longrightarrow> 2 \<le> length (py_split sep s)"
proof (induction s)
  case Nil
  then show ?case by simp
next
  case (Cons c cs)
  show ?case
  proof (cases "prefix sep (c # cs)")
    case True
    then show ?thesis using py_split_nonempty [of sep "drop (length sep - 1) cs"]
      by (cases "py_split sep (drop (length sep - 1) cs)") simp_all
  next
    case False
    with Cons show ?thesis by (auto split: list.splits)
  qed
qed

lemma py_split_first:
  assumes "sep \<noteq> []" "\<not> py_in sep (a @ butlast sep)"
  shows "py_split sep (a @ sep @ b) = a # py_split sep b"
  using assms(2)
proof (induction a)
  case Nil
  obtain c cs where sep: "sep = c # cs" using assms(1) by (cases sep) auto
  then show ?case by simp
next
  case (Cons x a)
  have len: "length sep \<le> length (x # a @ butlast sep)" by simp
  have np: "\<not> prefix sep (x # a @ butlast sep)" using Cons.prems by simp
  have "\<not> prefix sep (x # a @ sep @ b)"
  proof
    assume p: "prefix sep (x # a @ sep @ b)"
    obtain ys y where sep: "sep = ys @ [y]"
      using assms(1) by (cases sep rule: rev_cases) auto
    have q: "prefix (x # a @ butlast sep) (x # a @ sep @ b)"
      by (simp add: sep)
    have "prefix sep (x # a @ butlast sep)"
      by (rule prefix_length_prefix [OF p q len])
    with np show False ..
  qed
  moreover have "\<not> py_in sep (a @ butlast sep)" using Cons.prems by simp
  ultimately show ?case using Cons.IH by simp
qed

lemma hd_py_split_single: "hd (py_split [c] s) = takeWhile (\<lambda>x. x \<noteq> c) s"
  by (induction s) (auto split: list.splits simp: py_split_nonempty)

lemma hd_py_split_keep:
  assumes "c \<notin> set sep" "\<not> py_in sep v"
  shows "\<exists>t. hd (py_split sep (v @ c # w)) = v @ c # t"
  using assms(2)
proof (induction v)
  case Nil
  have "\<not> prefix sep (c # w)" using assms(1) Nil by (cases sep) auto
  then show ?case using py_split_nonempty [of sep w] by (cases "py_split sep w") auto
next
  case (Cons x v)
  have "\<not> prefix sep (x # v @ c # w)"
  proof
    assume p: "prefix sep (x # v @ c # w)"
    then have "prefix sep ((x # v) @ c # w)" by simp
    then consider "prefix sep (x # v)" | us where "sep = (x # v) @ us" "prefix us (c # w)"
      unfolding prefix_append by blast
    then consider "prefix sep (x # v)" | "prefix ((x # v) @ [c]) sep"
    proof cases
      case 1
      then show ?thesis using that by blast
    next
      case 2
      show ?thesis
      proof (cases us)
        case Nil
        with 2 that show ?thesis by simp
      next
        case (Cons u us')
        with 2 have "sep = ((x # v) @ [c]) @ us'" by (simp add: prefix_Cons)
        then have "prefix ((x # v) @ [c]) sep" by (metis prefixI)
        then show ?thesis using that by blast
      qed
    qed
    then show False
    proof cases
      case 1
      then show ?thesis using Cons.prems by simp
    next
      case 2
      then have "c \<in> set sep" by (auto dest: set_mono_prefix)
      then show ?thesis using assms(1) by simp
    qed
  qed
  moreover have "\<not> py_in sep v" using Cons.prems by simp
  ultimately show ?case using Cons.IH py_split_nonempty [of sep "v @ c # w"]
    by (cases "py_split sep (v @ c # w)") auto
qed

lemma hd_py_split_prefix: "prefix (hd (py_split sep w)) w"
proof (induction w)
  case Nil
  then show ?case by simp
next
  case (Cons x w)
  then show ?case
    using py_split_nonempty [of sep w] by (cases "py_split sep w") auto
qed

lemma hd_py_split_keep_hd:
  assumes "sep \<noteq> []" "hd sep \<notin> set v"
  shows "\<exists>t. hd (py_split sep (v @ w)) = v @ t \<and> prefix t w"
  using assms(2)
proof (induction v)
  case Nil
  then show ?case using hd_py_split_prefix [of sep w] by simp
next
  case (Cons x v)
  have "\<not> prefix sep (x # v @ w)"
    using assms(1) Cons.prems by (cases sep) auto
  then show ?case
    using Cons py_split_nonempty [of sep "v @ w"] by (cases "py_split sep (v @ w)") auto
qed

lemma keep_by_char:
  assumes "c \<notin> set sep" "\<not> py_in sep vid" "c \<notin> set vid" "q = [] \<or> (\<exists>r. q = c # r)"
  shows "takeWhile (\<lambda>x. x \<noteq> c) (hd (py_split sep (vid @ q))) = vid"
proof (cases "q = []")
  case True
  with py_split_no_sep [OF assms(2)] assms(3) show ?thesis by auto
next
  case False
  with assms(4) obtain r where "q = c # r" by blast
  with hd_py_split_keep [OF assms(1,2), of r] obtain t where
    "hd (py_split sep (vid @ q)) = vid @ c # t" by auto
  with assms(3) show ?thesis by (auto simp: takeWhile_tail)
qed

lemma keep_by_hd:
  assumes "sep \<noteq> []" "hd sep \<notin> set vid" "c \<notin> set vid" "q = [] \<or> (\<exists>r. q = c # r)"
  shows "takeWhile (\<lambda>x. x \<noteq> c) (hd (py_split sep (vid @ q))) = vid"
proof -
  obtain t where t: "hd (py_split sep (vid @ q)) = vid @ t" "prefix t q"
    using hd_py_split_keep_hd [OF assms(1,2), of q] by blast
  have "t = [] \<or> (\<exists>r. t = c # r)"
    using t(2) assms(4) by (cases t) (auto simp: prefix_Cons)
  with t(1) assms(3) show ?thesis by (auto simp: takeWhile_tail)
qed

lemma segment_of_marker:
  assumes sep: "sep \<noteq> []"
    and first: "\<not> py_in sep (a @ butlast sep)"
    and keep: "takeWhile (\<lambda>x. x \<noteq> c) (hd (py_split sep (vid @ q))) = vid"
  shows "segment (a @ sep @ vid @ q) sep [c] = Inr vid"
proof -
  have split: "py_split sep (a @ sep @ vid @ q) = a # py_split sep (vid @ q)"
    by (rule py_split_first [OF sep first])
  obtain w ws where tail: "py_split sep (vid @ q) = w # ws"
    using py_split_nonempty [of sep "vid @ q"] by (cases "py_split sep (vid @ q)") auto
  have "list_get (py_split [c] w) 0 = Inr (hd (py_split [c] w))"
    using py_split_nonempty [of "[c]" w]
    by (cases "py_split [c] w") (simp_all add: list_get_def)
  with keep split tail show ?thesis
    by (simp add: segment_def list_get_def hd_py_split_single)
qed

lemma segment_total:
  assumes "sep \<noteq> []" "py_in (x @ sep) u"
  shows "\<exists>v. segment u sep [c] = Inr v"
proof -
  have "2 \<le> length (py_split sep u)"
    using assms py_in_of_longer py_split_two by blast
  then show ?thesis
    using py_split_nonempty [of "[c]" "py_split sep u ! 1"]
    by (cases "py_split [c] (py_split sep u ! 1)") (simp_all add: segment_def list_get_def)
qed

lemma plain_id_no_marker:
  assumes "plain_id vid"
  shows "\<not> py_in ''watch?v='' vid" "\<not> py_in ''youtu.be/'' vid" "\<not> py_in ''/video/'' vid"
  using assms py_in_set [of "''watch?v=''" vid] py_in_set [of "''youtu.be/''" vid]
    py_in_set [of "''/video/''" vid]
  by (auto simp: plain_id_def)

text \<open>
  An empty segment counts as no segment: a watch URL whose marker is followed by nothing,
  or at once by \<open>&\<close>, gets the hash of the whole reference.
\<close>

lemma generate_video_id_hash_empty_segment:
  assumes "q = [] \<or> (\<exists>r. q = CHR ''&'' # r)"
    and "\<not> py_in ''watch?v='' (p @ ''youtube.com/watch?v'')"
  shows "generate_video_id_hash md5 (p @ ''youtube.com/watch?v='' @ q)
       = Inr (take 12 (md5 (p @ ''youtube.com/watch?v='' @ q)))"
proof -
  have "takeWhile (\<lambda>x. x \<noteq> CHR ''&'') (hd (py_split ''watch?v='' ([] @ q))) = []"
    by (rule keep_by_char) (use assms in simp_all)
  then have "segment ((p @ ''youtube.com/'') @ ''watch?v='' @ [] @ q) ''watch?v='' [CHR ''&'']
      = Inr []"
    by (intro segment_of_marker) (use assms in simp_all)
  moreover have "py_in ''youtube.com/watch?v='' (p @ ''youtube.com/watch?v='' @ q)"
    by (rule py_in_append)
  ultimately show ?thesis
    by (simp add: generate_video_id_hash_def)
qed

text \<open>
  Claim C8. \<^verbatim>\<open>generate_video_id_hash\<close> is a function of the source reference alone, so
  two calls with the same reference give the same identifier. When the reference has
  one of the three shapes (a \<^verbatim>\<open>youtube.com/watch?v=\<close> URL, a \<^verbatim>\<open>youtu.be/\<close> URL, a
  \<^verbatim>\<open>/video/\<close> URL; the marker is the first of its kind and the branches are tried in
  this order) and the video identifier is followed by nothing or by the character that
  ends it, the result is the first twelve characters of the hash of the video
  identifier, whatever stands before the marker and after the identifier. With none of
  the markers the result is the first twelve characters of the hash of the whole
  reference. No reference makes the function raise.
\<close>

theorem generate_video_id_hash_by_segment:
  assumes vid: "plain_id vid"
  shows "(\<not> py_in ''watch?v='' (p1 @ ''youtube.com/watch?v'') \<and> (q1 = [] \<or> (\<exists>r. q1 = CHR ''&'' # r))
        \<longrightarrow> generate_video_id_hash md5 (p1 @ ''youtube.com/watch?v='' @ vid @ q1)
            = Inr (take 12 (md5 vid)))
    \<and> (\<not> py_in ''youtube.com/watch?v='' (p2 @ ''youtu.be/'' @ vid @ q2)
        \<and> \<not> py_in ''youtu.be/'' (p2 @ ''youtu.be'') \<and> (q2 = [] \<or> (\<exists>r. q2 = CHR ''?'' # r))
        \<longrightarrow> generate_video_id_hash md5 (p2 @ ''youtu.be/'' @ vid @ q2)
            = Inr (take 12 (md5 vid)))
    \<and> (\<not> py_in ''youtube.com/watch?v='' (p3 @ ''/video/'' @ vid @ q3)
        \<and> \<not> py_in ''youtu.be/'' (p3 @ ''/video/'' @ vid @ q3)
        \<and> \<not> py_in ''/video/'' (p3 @ ''/video'') \<and> (q3 = [] \<or> (\<exists>r. q3 = CHR ''/'' # r))
        \<longrightarrow> generate_video_id_hash md5 (p3 @ ''/video/'' @ vid @ q3)
            = Inr (take 12 (md5 vid)))
    \<and> (\<not> py_in ''youtube.com/watch?v='' u \<and> \<not> py_in ''youtu.be/'' u
        \<and> \<not> py_in ''/video/'' u
        \<longrightarrow> generate_video_id_hash md5 u = Inr (take 12 (md5 u)))
    \<and> (\<exists>h. generate_video_id_hash md5 u = Inr h)"
proof (intro conjI impI)
  have ne: "vid \<noteq> []" and amp: "CHR ''&'' \<notin> set vid" and qm: "CHR ''?'' \<notin> set vid"
    and sl: "CHR ''/'' \<notin> set vid"
    using vid by (simp_all add: plain_id_def)
  note nm = plain_id_no_marker [OF vid]
  {
    assume h: "\<not> py_in ''watch?v='' (p1 @ ''youtube.com/watch?v'') \<and> (q1 = [] \<or> (\<exists>r. q1 = CHR ''&'' # r))"
    have "segment ((p1 @ ''youtube.com/'') @ ''watch?v='' @ vid @ q1) ''watch?v='' [CHR ''&'']
        = Inr vid"
      by (rule segment_of_marker) (use h nm amp keep_by_char [of "CHR ''&''" "''watch?v=''" vid q1] in simp_all)
    moreover have "py_in ''youtube.com/watch?v='' (p1 @ ''youtube.com/watch?v='' @ vid @ q1)"
      by (rule py_in_append)
    ultimately show "generate_video_id_hash md5 (p1 @ ''youtube.com/watch?v='' @ vid @ q1)
        = Inr (take 12 (md5 vid))"
      using ne by (simp add: generate_video_id_hash_def)
  }
  {
    assume h: "\<not> py_in ''youtube.com/watch?v='' (p2 @ ''youtu.be/'' @ vid @ q2)
        \<and> \<not> py_in ''youtu.be/'' (p2 @ ''youtu.be'') \<and> (q2 = [] \<or> (\<exists>r. q2 = CHR ''?'' # r))"
    have "segment (p2 @ ''youtu.be/'' @ vid @ q2) ''youtu.be/'' [CHR ''?''] = Inr vid"
      by (rule segment_of_marker) (use h nm qm keep_by_char [of "CHR ''?''" "''youtu.be/''" vid q2] in simp_all)
    moreover have "py_in ''youtu.be/'' (p2 @ ''youtu.be/'' @ vid @ q2)"
      by (rule py_in_append)
    ultimately show "generate_video_id_hash md5 (p2 @ ''youtu.be/'' @ vid @ q2)
        = Inr (take 12 (md5 vid))"
      using ne h by (simp add: generate_video_id_hash_def)
  }
  {
    assume h: "\<not> py_in ''youtube.com/watch?v='' (p3 @ ''/video/'' @ vid @ q3)
        \<and> \<not> py_in ''youtu.be/'' (p3 @ ''/video/'' @ vid @ q3)
        \<and> \<not> py_in ''/video/'' (p3 @ ''/video'') \<and> (q3 = [] \<or> (\<exists>r. q3 = CHR ''/'' # r))"
    have "segment (p3 @ ''/video/'' @ vid @ q3) ''/video/'' [CHR ''/''] = Inr vid"
      by (rule segment_of_marker) (use h sl keep_by_hd [of "''/video/''" vid "CHR ''/''" q3] in simp_all)
    moreover have "py_in ''/video/'' (p3 @ ''/video/'' @ vid @ q3)"
      by (rule py_in_append)
    ultimately show "generate_video_id_hash md5 (p3 @ ''/video/'' @ vid @ q3)
        = Inr (take 12 (md5 vid))"
      using ne h by (simp add: generate_video_id_hash_def)
  }
  {
    assume "\<not> py_in ''youtube.com/watch?v='' u \<and> \<not> py_in ''youtu.be/'' u
        \<and> \<not> py_in ''/video/'' u"
    then show "generate_video_id_hash md5 u = Inr (take 12 (md5 u))"
      by (simp add: generate_video_id_hash_def)
  }
  show "\<exists>h. generate_video_id_hash md5 u = Inr h"
  proof -
    have a: "py_in ''youtube.com/watch?v='' u \<Longrightarrow> \<exists>v. segment u ''watch?v='' ''&'' = Inr v"
      using segment_total [of "''watch?v=''" "''youtube.com/''" u "CHR ''&''"] by simp
    have b: "py_in ''youtu.be/'' u \<Longrightarrow> \<exists>v. segment u ''youtu.be/'' ''?'' = Inr v"
      using segment_total [of "''youtu.be/''" "[]" u "CHR ''?''"] by simp
    have c: "py_in ''/video/'' u \<Longrightarrow> \<exists>v. segment u ''/video/'' ''/'' = Inr v"
      using segment_total [of "''/video/''" "[]" u "CHR ''/''"] by simp
    show ?thesis
      using a b c by (auto simp: generate_video_id_hash_def)
  qed
qed

text \<open>
  A watch URL with a further query parameter, the short URL and a \<^verbatim>\<open>/video/\<close> URL of
  the same video identifier all give the hash of that identifier; a reference without a
  marker gives the hash of the reference.
\<close>

theorem generate_video_id_hash_by_segment_witness:
  "\<forall>md5. plain_id ''dQw4w9WgXcQ''
    \<and> generate_video_id_hash md5 ''https://www.youtube.com/watch?v=dQw4w9WgXcQ&t=10s''
        = Inr (take 12 (md5 ''dQw4w9WgXcQ''))
    \<and> generate_video_id_hash md5 ''https://youtu.be/dQw4w9WgXcQ''
        = Inr (take 12 (md5 ''dQw4w9WgXcQ''))
    \<and> generate_video_id_hash md5 ''https://vimeo.example/video/dQw4w9WgXcQ/details''
        = Inr (take 12 (md5 ''dQw4w9WgXcQ''))
    \<and> generate_video_id_hash md5 ''https://example.com/watch?v=XYZ123''
        = Inr (take 12 (md5 ''https://example.com/watch?v=XYZ123''))"
proof
  fix md5 :: "string \<Rightarrow> string"
  have v: "plain_id ''dQw4w9WgXcQ''" by (simp add: plain_id_def)
  show "plain_id ''dQw4w9WgXcQ''
    \<and> generate_video_id_hash md5 ''https://www.youtube.com/watch?v=dQw4w9WgXcQ&t=10s''
        = Inr (take 12 (md5 ''dQw4w9WgXcQ''))
    \<and> generate_video_id_hash md5 ''https://youtu.be/dQw4w9WgXcQ''
        = Inr (take 12 (md5 ''dQw4w9WgXcQ''))
    \<and> generate_video_id_hash md5 ''https://vimeo.example/video/dQw4w9WgXcQ/details''
        = Inr (take 12 (md5 ''dQw4w9WgXcQ''))
    \<and> generate_video_id_hash md5 ''https://example.com/watch?v=XYZ123''
        = Inr (take 12 (md5 ''https://example.com/watch?v=XYZ123''))"
    using v generate_video_id_hash_by_segment [OF v, of "''https://www.''" "''&t=10s''" md5
        "''https://''" "[]" "''https://vimeo.example''" "''/details''"
        "''https://example.com/watch?v=XYZ123''"]
    by simp
qed

section \<open>Duplicate lookup\<close>

subsection \<open>Evaluations on one-file directories\<close>

lemma lookup_song_audio:
  "check_existing_file (Entries [(''Song Title_abc123def456.mp3'', True)])
     ''Song Title'' ''abc123def456'' True = Inr (Some ''Song Title_abc123def456.mp3'')"
  by code_simp

lemma lookup_song_video:
  "check_existing_file (Entries [(''Song Title_abc123def456.mp3'', True)])
     ''Song Title'' ''abc123def456'' False = Inr None"
  by code_simp

lemma lookup_vid:
  "check_existing_file (Entries [(''Some Random Video.webm'', True)])
     ''Some Random Vid'' ''unknown-id'' False = Inr None"
  by code_simp

lemma lookup_video:
  "check_existing_file (Entries [(''Some Random Video.webm'', True)])
     ''Some Random Video'' ''unknown-id'' False = Inr (Some ''Some Random Video.webm'')"
  by code_simp

lemma lookup_unrelated:
  "check_existing_file (Entries [(''Some Random Video.webm'', True)])
     ''Completely Unrelated'' ''unknown-id'' False = Inr None"
  by code_simp

lemma words_vid:
  "card (set (py_words (lower (sanitize_filename ''Some Random Vid'')))
      \<inter> set (py_words (lower ''Some Random Video''))) = 2"
  "card (set (py_words (lower (sanitize_filename ''Some Random Vid'')))
      \<union> set (py_words (lower ''Some Random Video''))) = 4"
  by code_simp+

lemma not_similar_vid: "\<not> similar (sanitize_filename ''Some Random Vid'') ''Some Random Video''"
  by code_simp

text \<open>
  Claim C5. In a directory holding the file \<^verbatim>\<open>Song Title_abc123def456.mp3\<close>, the lookup
  of title \<^verbatim>\<open>Song Title\<close> with content identifier \<^verbatim>\<open>abc123def456\<close> returns that
  file name when audio is asked for, and no match when video is asked for.
\<close>

theorem check_existing_file_media_type:
  "check_existing_file (Entries [(''Song Title_abc123def456.mp3'', True)])
     ''Song Title'' ''abc123def456'' True = Inr (Some ''Song Title_abc123def456.mp3'')
   \<and> check_existing_file (Entries [(''Song Title_abc123def456.mp3'', True)])
     ''Song Title'' ''abc123def456'' False = Inr None"
  using lookup_song_audio lookup_song_video by (rule conjI)

text \<open>
  Claim C4, as the specification states it, fails: against the file
  \<^verbatim>\<open>Some Random Video.webm\<close> the title \<^verbatim>\<open>Some Random Vid\<close> is not matched. The word sets
  \<open>{some, random, vid}\<close> and \<open>{some, random, video}\<close> share two words of four, a
  similarity of 0.5, which does not exceed 0.7.
\<close>

theorem similarity_fallback_vid_counterexample:
  "check_existing_file (Entries [(''Some Random Video.webm'', True)])
     ''Some Random Vid'' ''unknown-id'' False \<noteq> Inr (Some ''Some Random Video.webm'')"
  by (simp add: lookup_vid)

text \<open>
  Claim C4, amended. The title \<^verbatim>\<open>Some Random Vid\<close> finds no match (two shared words
  out of four); the full title \<^verbatim>\<open>Some Random Video\<close> finds the file through the
  similarity test, no pattern matching the unknown identifier; and
  \<^verbatim>\<open>Completely Unrelated\<close> finds no match.
\<close>

theorem similarity_fallback_examples:
  "check_existing_file (Entries [(''Some Random Video.webm'', True)])
     ''Some Random Vid'' ''unknown-id'' False = Inr None
   \<and> card (set (py_words (lower (sanitize_filename ''Some Random Vid'')))
        \<inter> set (py_words (lower ''Some Random Video''))) = 2
   \<and> card (set (py_words (lower (sanitize_filename ''Some Random Vid'')))
        \<union> set (py_words (lower ''Some Random Video''))) = 4
   \<and> first_glob_match (Entries [(''Some Random Video.webm'', True)])
        (concat (map (patterns (sanitize_filename ''Some Random Video'') ''unknown-id'')
           (possible_extensions False))) = None
   \<and> check_existing_file (Entries [(''Some Random Video.webm'', True)])
     ''Some Random Video'' ''unknown-id'' False = Inr (Some ''Some Random Video.webm'')
   \<and> check_existing_file (Entries [(''Some Random Video.webm'', True)])
     ''Completely Unrelated'' ''unknown-id'' False = Inr None"
proof -
  have "first_glob_match (Entries [(''Some Random Video.webm'', True)])
        (concat (map (patterns (sanitize_filename ''Some Random Video'') ''unknown-id'')
           (possible_extensions False))) = None"
    by code_simp
  then show ?thesis
    using lookup_vid words_vid lookup_video lookup_unrelated by simp
qed

section \<open>Task orchestration\<close>

subsection \<open>The invariant\<close>

lemma count_status_update:
  "i < length xs \<Longrightarrow> P (status v) = P (status (xs ! i)) \<Longrightarrow>
     count_status P (xs[i := v]) = count_status P xs"
proof (induction xs arbitrary: i)
  case Nil
  then show ?case by simp
next
  case (Cons x xs)
  then show ?case by (cases i) (auto simp: count_status_def)
qed

lemma count_status_none:
  "\<forall>v \<in> set xs. \<not> P (status v) \<Longrightarrow> count_status P xs = 0"
  by (simp add: count_status_def)

lemma final_outcome_terminal:
  "fst (final_outcome env request i) \<in> {Completed, Failed, Skipped}"
  by (auto simp: final_outcome_def fetch_outcome_def
      split: sum.splits option.splits fetch_result.splits)

lemma task_inv_start: "task_inv env request (start_download request)"
  by (simp add: task_inv_def orch_inv_def start_download_def count_status_def)

lemma task_inv_publish:
  "task_inv env request c \<Longrightarrow> task_inv env request (send_video_progress_update c)"
  by (auto simp: task_inv_def orch_inv_def send_video_progress_update_def wave_finished_def
      split: orch_pc.splits if_splits)

lemma task_inv_orchestrate:
  assumes "task_inv env request c"
  shows "task_inv env request (process_download_enhanced env request c)"
proof (cases "opc c")
  case O_start
  with assms show ?thesis
    by (simp add: task_inv_def orch_inv_def process_download_enhanced_def
        update_task_status_realtime_def)
next
  case O_fetching
  with assms show ?thesis
    by (auto simp: task_inv_def orch_inv_def process_download_enhanced_def env_ok_def
        update_task_status_realtime_def task_failed_def new_video_download_def
        count_status_def)
next
  case O_resolved
  with assms show ?thesis
    by (simp add: task_inv_def orch_inv_def process_download_enhanced_def
        update_task_status_realtime_def)
next
  case O_submit
  with assms show ?thesis
    by (auto simp: task_inv_def orch_inv_def process_download_enhanced_def env_ok_def
        update_task_status_realtime_def task_failed_def pc_inv_def)
next
  case O_wave
  with assms show ?thesis
    by (auto simp: task_inv_def orch_inv_def process_download_enhanced_def env_ok_def
        update_task_status_realtime_def task_failed_def wave_finished_def)
next
  case O_done
  with assms show ?thesis
    by (simp add: process_download_enhanced_def)
qed


lemmas work_defs = download_single_video_def except_handler_def mark_downloading_def Let_def

lemmas work_splits = worker_pc.splits sum.splits option.splits fetch_result.splits if_splits

lemma work_idle:
  "\<not> (i < length (pcs c) \<and> i < length (items c) \<and> i < length (resolved env)) \<Longrightarrow>
     download_single_video env request i c = c"
  "i < length (pcs c) \<Longrightarrow> pcs c ! i = W_done \<Longrightarrow> download_single_video env request i c = c"
  by (auto simp: download_single_video_def)

lemma work_frame:
  "opc (download_single_video env request i c) = opc c"
  "task_status (download_single_video env request i c) = task_status c"
  "total_videos (download_single_video env request i c) = total_videos c"
  "length (items (download_single_video env request i c)) = length (items c)"
  "length (pcs (download_single_video env request i c)) = length (pcs c)"
  by (auto simp: work_defs split: work_splits)

lemma work_nil:
  "(items (download_single_video env request i c) = []) = (items c = [])"
  "(pcs (download_single_video env request i c) = []) = (pcs c = [])"
  using work_frame(4,5) [of env request i c] by (metis length_0_conv)+

lemma work_other:
  "j \<noteq> i \<Longrightarrow> items (download_single_video env request i c) ! j = items c ! j"
  "j \<noteq> i \<Longrightarrow> pcs (download_single_video env request i c) ! j = pcs c ! j"
  by (auto simp: work_defs split: work_splits)

lemma work_at_index:
  assumes "i < length (pcs c)" "i < length (items c)" "i < length (resolved env)"
    and "pc_inv env request i (pcs c ! i) (items c ! i)"
  shows "pc_inv env request i (pcs (download_single_video env request i c) ! i)
           (items (download_single_video env request i c) ! i)"
proof (cases "pcs c ! i")
  case W_start
  with assms show ?thesis
    by (simp add: work_defs pc_inv_def)
next
  case W_check
  with assms show ?thesis
    by (auto simp: work_defs pc_inv_def reaches_fetch_def final_outcome_def dup_result_def
        split: sum.splits option.splits)
next
  case W_fetch
  with assms show ?thesis
    by (auto simp: work_defs pc_inv_def reaches_fetch_def final_outcome_def fetch_outcome_def
        split: sum.splits option.splits fetch_result.splits)
next
  case (W_handler msg)
  with assms show ?thesis
    by (simp add: work_defs pc_inv_def)
next
  case W_done
  with assms show ?thesis
    by (simp add: work_idle)
qed

lemma work_failure_count:
  assumes "i < length (pcs c)" "i < length (items c)" "i < length (resolved env)"
    and "pc_inv env request i (pcs c ! i) (items c ! i)"
    and "failure_count c = count_status (\<lambda>st. st = Failed) (items c)"
  shows "failure_count (download_single_video env request i c)
       = count_status (\<lambda>st. st = Failed) (items (download_single_video env request i c))"
proof (cases "pcs c ! i")
  case W_start
  with assms show ?thesis
    by (simp add: work_defs pc_inv_def count_status_update)
next
  case W_check
  with assms show ?thesis
    by (auto simp: work_defs pc_inv_def count_status_update split: sum.splits option.splits)
next
  case W_fetch
  with assms show ?thesis
    by (auto simp: work_defs pc_inv_def count_status_update
        split: sum.splits option.splits fetch_result.splits)
next
  case (W_handler msg)
  with assms show ?thesis
    by (simp add: work_defs)
next
  case W_done
  with assms show ?thesis
    by (simp add: work_idle)
qed

lemma task_inv_work:
  assumes inv: "task_inv env request c"
  shows "task_inv env request (download_single_video env request i c)"
proof (cases "i < length (pcs c)")
  case False
  then show ?thesis using inv by (simp add: work_idle)
next
  case True
  let ?c = "download_single_video env request i c"
  from True inv have len: "length (pcs c) = length (items c)" "length (items c) = length (resolved env)"
    by (auto simp: task_inv_def)
  with True have ii: "i < length (items c)" "i < length (resolved env)" by simp_all
  from inv True have pi: "pc_inv env request i (pcs c ! i) (items c ! i)"
    by (simp add: task_inv_def)
  have at: "pc_inv env request i (pcs ?c ! i) (items ?c ! i)"
    by (rule work_at_index [OF True ii pi])
  have all: "\<forall>j < length (pcs ?c). pc_inv env request j (pcs ?c ! j) (items ?c ! j)"
  proof (intro allI impI)
    fix j assume "j < length (pcs ?c)"
    then have j: "j < length (pcs c)" by (simp add: work_frame)
    show "pc_inv env request j (pcs ?c ! j) (items ?c ! j)"
    proof (cases "j = i")
      case True
      with at show ?thesis by simp
    next
      case False
      with inv j show ?thesis by (simp add: work_other task_inv_def)
    qed
  qed
  have fc: "failure_count ?c = count_status (\<lambda>st. st = Failed) (items ?c)"
    using inv by (intro work_failure_count [OF True ii pi]) (simp add: task_inv_def)
  have orch: "orch_inv env ?c"
  proof (cases "opc c = O_done \<and> env_ok env")
    case True
    with inv have "wave_finished c" by (simp add: task_inv_def orch_inv_def)
    with \<open>i < length (pcs c)\<close> have "pcs c ! i = W_done"
      by (simp add: wave_finished_def list_all_length)
    then have "?c = c" using \<open>i < length (pcs c)\<close> by (simp add: work_idle)
    with inv show ?thesis by (simp add: task_inv_def)
  next
    case False
    with inv show ?thesis
      by (auto simp: task_inv_def orch_inv_def work_frame work_nil split: orch_pc.splits)
  qed
  from True have ne: "pcs ?c \<noteq> []" by (auto simp: work_nil)
  show ?thesis
    unfolding task_inv_def
    using all fc orch len ne by (simp add: work_frame)
qed

lemma task_inv_step:
  "task_inv env request c \<Longrightarrow> task_inv env request (step env request c ev)"
  by (cases ev) (simp_all add: step_def task_inv_orchestrate task_inv_work task_inv_publish)

lemma task_inv_run: "task_inv env request (run env request evs)"
  unfolding run_def
  by (induction evs rule: rev_induct) (simp_all add: task_inv_start task_inv_step)

subsection \<open>Counts, failures and the duplicate check\<close>

lemma count_three_le:
  "count_status (\<lambda>st. st = Completed) xs + count_status (\<lambda>st. st = Failed) xs
     + count_status (\<lambda>st. st = Skipped) xs \<le> length xs"
  by (induction xs) (auto simp: count_status_def)

lemma count_three_eq:
  "\<forall>v \<in> set xs. status v \<in> {Completed, Failed, Skipped} \<Longrightarrow>
   count_status (\<lambda>st. st = Completed) xs + count_status (\<lambda>st. st = Failed) xs
     + count_status (\<lambda>st. st = Skipped) xs = length xs"
  by (induction xs) (auto simp: count_status_def)

lemma done_is_final_outcome:
  assumes "i < length (pcs (run env request evs))" "pcs (run env request evs) ! i = W_done"
  shows "(status (items (run env request evs) ! i), error (items (run env request evs) ! i))
       = final_outcome env request i"
  using task_inv_run [of env request evs] assms by (auto simp: task_inv_def pc_inv_def)

lemma wave_finished_terminal:
  assumes "wave_finished (run env request evs)"
  shows "\<forall>v \<in> set (items (run env request evs)). status v \<in> {Completed, Failed, Skipped}"
proof
  fix v assume "v \<in> set (items (run env request evs))"
  then obtain i where i: "i < length (items (run env request evs))"
    "v = items (run env request evs) ! i" by (auto simp: in_set_conv_nth)
  with assms have "i < length (pcs (run env request evs))" "pcs (run env request evs) ! i = W_done"
    by (simp_all add: wave_finished_def list_all_length)
  from done_is_final_outcome [OF this] final_outcome_terminal [of env request i] i
  show "status v \<in> {Completed, Failed, Skipped}" by (metis fst_conv)
qed

lemma completed_only_at_end:
  assumes "task_status (run env request evs) = T_completed"
  shows "wave_finished (run env request evs)
    \<and> total_videos (run env request evs) = Some (int (length (items (run env request evs))))"
  using task_inv_run [of env request evs] assms
  by (auto simp: task_inv_def orch_inv_def split: orch_pc.splits if_splits)

text \<open>
  Claim C1. In every state a run can reach (every snapshot), the items with status
  completed, failed and skipped together number at most the items of the task. Once the
  worker wave has finished, whether the task then ends completed or failed, they number
  exactly the items of the task. Task status completed is reached only after the wave has
  finished, and \<^verbatim>\<open>total_videos\<close> is then the number of items.
\<close>

theorem counts_bounded_and_exact:
  "count_status (\<lambda>st. st = Completed) (items (run env request evs))
     + count_status (\<lambda>st. st = Failed) (items (run env request evs))
     + count_status (\<lambda>st. st = Skipped) (items (run env request evs))
     \<le> length (items (run env request evs))
   \<and> (wave_finished (run env request evs) \<longrightarrow>
        count_status (\<lambda>st. st = Completed) (items (run env request evs))
          + count_status (\<lambda>st. st = Failed) (items (run env request evs))
          + count_status (\<lambda>st. st = Skipped) (items (run env request evs))
          = length (items (run env request evs)))
   \<and> (task_status (run env request evs) = T_completed \<longrightarrow>
        wave_finished (run env request evs)
        \<and> total_videos (run env request evs)
            = Some (int (length (items (run env request evs)))))"
  using count_three_le [of "items (run env request evs)"]
    count_three_eq [OF wave_finished_terminal, of env request evs]
    completed_only_at_end [of env request evs]
  by blast

lemma final_outcome_fetch:
  "reaches_fetch env request i \<Longrightarrow> final_outcome env request i = fetch_outcome env i"
  by (auto simp: reaches_fetch_def final_outcome_def split: sum.splits option.splits)

text \<open>
  Claim C2. A task resolves to three items, all three get past the duplicate check, the
  provider call of the second raises with text \<open>msg\<close> and the other two return a
  file. In whatever order the workers and the progress updates ran, once the
  orchestrator is done the task status is completed, the items are completed, failed,
  completed, the second item carries \<open>msg\<close> as its error, \<^verbatim>\<open>failure_count\<close> is 1 and
  \<^verbatim>\<open>progress\<close> is 2.
\<close>

theorem one_failure_does_not_abort:
  assumes env: "setup_error env = None" "main_loop_set env" "zip_error env = None"
    and three: "resolved env = [v1, v2, v3]"
    and miss: "reaches_fetch env request 0" "reaches_fetch env request 1"
      "reaches_fetch env request 2"
    and first: "fetch env 0 = FetchReturned (Some f1)" "f1 \<noteq> []" "done_getsize_error env 0 = None"
    and second: "fetch env 1 = FetchRaised msg"
    and third: "fetch env 2 = FetchReturned (Some f3)" "f3 \<noteq> []" "done_getsize_error env 2 = None"
    and finished: "opc (run env request evs) = O_done"
  shows "task_status (run env request evs) = T_completed
    \<and> map status (items (run env request evs)) = [Completed, Failed, Completed]
    \<and> error (items (run env request evs) ! 1) = msg
    \<and> failure_count (run env request evs) = 1
    \<and> progress (run env request evs) = 2"
proof -
  let ?c = "run env request evs"
  have inv: "task_inv env request ?c" by (rule task_inv_run)
  have ok: "env_ok env" using env three by (simp add: env_ok_def)
  with inv finished have fin: "task_status ?c = T_completed" "wave_finished ?c"
    "length (items ?c) = 3" "progress ?c = count_status succeeded (items ?c)"
    using three by (simp_all add: task_inv_def orch_inv_def)
  then have pcs: "length (pcs ?c) = 3" "pcs ?c ! 0 = W_done" "pcs ?c ! 1 = W_done"
    "pcs ?c ! 2 = W_done"
    by (simp_all add: wave_finished_def list_all_length)
  have o0: "(status (items ?c ! 0), error (items ?c ! 0)) = (Completed, [])"
    using done_is_final_outcome [of 0 env request evs] pcs final_outcome_fetch [OF miss(1)] first
    by (simp add: fetch_outcome_def)
  have o1: "(status (items ?c ! 1), error (items ?c ! 1)) = (Failed, msg)"
    using done_is_final_outcome [of 1 env request evs] pcs final_outcome_fetch [OF miss(2)] second
    by (simp add: fetch_outcome_def)
  have o2: "(status (items ?c ! 2), error (items ?c ! 2)) = (Completed, [])"
    using done_is_final_outcome [of 2 env request evs] pcs final_outcome_fetch [OF miss(3)] third
    by (simp add: fetch_outcome_def)
  have "\<exists>a b c. items ?c = [a, b, c]"
    using fin(3) by (auto simp: length_Suc_conv numeral_3_eq_3)
  then obtain a b c where abc: "items ?c = [a, b, c]" by blast
  from abc o0 o1 o2 have st: "status a = Completed" "status b = Failed" "status c = Completed"
    "error b = msg" by simp_all
  have "failure_count ?c = count_status (\<lambda>st. st = Failed) (items ?c)"
    using inv by (simp add: task_inv_def)
  with abc st fin show ?thesis
    by (simp add: count_status_def succeeded_def)
qed

text \<open>
  Claim C7, amended. When the duplicate check of an item raises, the item never has
  status downloading, and once its worker is done the item is failed with the text of
  the exception as its error: the \<^verbatim>\<open>except\<close> clause around the whole worker body
  catches the exception.
\<close>

theorem duplicate_check_error_fails_item:
  assumes "skip_duplicates request"
    and "check_existing_file (dir_at env i) (info_title (resolved env ! i))
           (info_video_id_hash (resolved env ! i)) (audio_only request) = Inl msg"
  shows "(i < length (items (run env request evs)) \<longrightarrow>
            status (items (run env request evs) ! i) \<noteq> Downloading)
    \<and> (i < length (pcs (run env request evs)) \<and> pcs (run env request evs) ! i = W_done \<longrightarrow>
            status (items (run env request evs) ! i) = Failed
            \<and> error (items (run env request evs) ! i) = msg)"
proof -
  let ?c = "run env request evs"
  have inv: "task_inv env request ?c" by (rule task_inv_run)
  have dup: "dup_result env request i = Inl msg"
    using assms by (simp add: dup_result_def)
  then have nf: "\<not> reaches_fetch env request i" and fo: "final_outcome env request i = (Failed, msg)"
    by (simp_all add: reaches_fetch_def final_outcome_def)
  have a: "status (items ?c ! i) \<noteq> Downloading" if "i < length (items ?c)"
  proof (cases "pcs ?c = []")
    case True
    with inv that have "status (items ?c ! i) = Pending" by (simp add: task_inv_def)
    then show ?thesis by simp
  next
    case False
    with inv that have "pc_inv env request i (pcs ?c ! i) (items ?c ! i)"
      by (auto simp: task_inv_def)
    with nf fo show ?thesis
      by (cases "pcs ?c ! i") (auto simp: pc_inv_def)
  qed
  have b: "status (items ?c ! i) = Failed \<and> error (items ?c ! i) = msg"
    if "i < length (pcs ?c) \<and> pcs ?c ! i = W_done"
    using done_is_final_outcome [of i env request evs] that fo by simp
  from a b show ?thesis by blast
qed

subsection \<open>The example tasks\<close>

lemma demo_run:
  "run demo_env demo_request demo_schedule =
     \<lparr>task_status = T_completed, progress = 2, total_videos = Some 3,
      success_count = 2, failure_count = 1, downloading_count = Some 0,
      checking_count = Some 0, skipped_count = Some 0, zip_available = True,
      completed = True,
      items =
        [\<lparr>url = ''https://youtu.be/aaa'', title = ''One'', status = Completed,
           filename = ''file.mp4'', error = [], video_id_hash = ''h1'', skipped_reason = []\<rparr>,
         \<lparr>url = ''https://youtu.be/bbb'', title = ''Two'', status = Failed, filename = [],
           error = ''HTTP Error 403: Forbidden'', video_id_hash = ''h2'', skipped_reason = []\<rparr>,
         \<lparr>url = ''https://youtu.be/ccc'', title = ''Three'', status = Completed,
           filename = ''file.mp4'', error = [], video_id_hash = ''h3'', skipped_reason = []\<rparr>],
      pcs = [W_done, W_done, W_done], opc = O_done\<rparr>"
  by code_simp

lemma unreadable_run:
  "run unreadable_env demo_request unreadable_schedule =
     \<lparr>task_status = T_completed, progress = 0, total_videos = Some 1,
      success_count = 0, failure_count = 1, downloading_count = None,
      checking_count = None, skipped_count = None, zip_available = True,
      completed = True,
      items =
        [\<lparr>url = ''https://youtu.be/aaa'', title = ''One'', status = Failed,
           filename = [], error = ''[Errno 13] Permission denied'', video_id_hash = ''h1'',
           skipped_reason = []\<rparr>],
      pcs = [W_done], opc = O_done\<rparr>"
  by code_simp

lemma demo_miss:
  "reaches_fetch demo_env demo_request 0" "reaches_fetch demo_env demo_request 1"
  "reaches_fetch demo_env demo_request 2"
  by code_simp+

lemma unreadable_check:
  "check_existing_file (dir_at unreadable_env 0) (info_title (resolved unreadable_env ! 0))
     (info_video_id_hash (resolved unreadable_env ! 0)) (audio_only demo_request)
   = Inl ''[Errno 13] Permission denied''"
  by code_simp


lemma demo_fields:
  "setup_error demo_env = None" "main_loop_set demo_env" "zip_error demo_env = None"
  "resolved demo_env =
     [\<lparr>info_url = ''https://youtu.be/aaa'', info_title = ''One'', info_video_id_hash = ''h1''\<rparr>,
      \<lparr>info_url = ''https://youtu.be/bbb'', info_title = ''Two'', info_video_id_hash = ''h2''\<rparr>,
      \<lparr>info_url = ''https://youtu.be/ccc'', info_title = ''Three'', info_video_id_hash = ''h3''\<rparr>]"
  "fetch demo_env 0 = FetchReturned (Some ''file.mp4'')"
  "done_getsize_error demo_env 0 = None"
  "fetch demo_env 1 = FetchRaised ''HTTP Error 403: Forbidden''"
  "fetch demo_env 2 = FetchReturned (Some ''file.mp4'')"
  "done_getsize_error demo_env 2 = None"
  by (simp_all add: demo_env_def)

lemma demo_finished:
  "opc (run demo_env demo_request demo_schedule) = O_done"
  "wave_finished (run demo_env demo_request demo_schedule)"
  "length (items (run demo_env demo_request demo_schedule)) = 3"
  by (simp_all add: demo_run wave_finished_def)

text \<open>
  The example task at the end of its run: the wave has finished and the three counts
  add up to the three items.
\<close>

theorem counts_bounded_and_exact_witness:
  "wave_finished (run demo_env demo_request demo_schedule)
   \<and> length (items (run demo_env demo_request demo_schedule)) = 3
   \<and> count_status (\<lambda>st. st = Completed) (items (run demo_env demo_request demo_schedule))
     + count_status (\<lambda>st. st = Failed) (items (run demo_env demo_request demo_schedule))
     + count_status (\<lambda>st. st = Skipped) (items (run demo_env demo_request demo_schedule)) = 3"
  using counts_bounded_and_exact [of demo_env demo_request demo_schedule] demo_finished
  by simp

text \<open>
  The example task meets the hypotheses of claim C2 and ends as the claim says.
\<close>

theorem one_failure_does_not_abort_witness:
  "opc (run demo_env demo_request demo_schedule) = O_done
   \<and> fetch demo_env 1 = FetchRaised ''HTTP Error 403: Forbidden''
   \<and> task_status (run demo_env demo_request demo_schedule) = T_completed
   \<and> map status (items (run demo_env demo_request demo_schedule))
       = [Completed, Failed, Completed]
   \<and> error (items (run demo_env demo_request demo_schedule) ! 1) = ''HTTP Error 403: Forbidden''
   \<and> failure_count (run demo_env demo_request demo_schedule) = 1"
  using one_failure_does_not_abort [OF demo_fields(1-4) demo_miss demo_fields(5) _
      demo_fields(6-8) _ demo_fields(9) demo_finished(1)]
    demo_finished(1) demo_fields(7)
  by simp

lemma unreadable_finished:
  "0 < length (items (run unreadable_env demo_request unreadable_schedule))"
  "0 < length (pcs (run unreadable_env demo_request unreadable_schedule))"
  "pcs (run unreadable_env demo_request unreadable_schedule) ! 0 = W_done"
  by (simp_all add: unreadable_run)

text \<open>
  Claim C7, as the specification states it, fails: in the task whose directory cannot be
  listed, the duplicate check raises, and the worker ends with the item failed; the item
  has not proceeded to downloading.
\<close>

theorem duplicate_check_error_counterexample:
  "check_existing_file (dir_at unreadable_env 0) (info_title (resolved unreadable_env ! 0))
     (info_video_id_hash (resolved unreadable_env ! 0)) (audio_only demo_request)
     = Inl ''[Errno 13] Permission denied''
   \<and> pcs (run unreadable_env demo_request unreadable_schedule) ! 0 = W_done
   \<and> status (items (run unreadable_env demo_request unreadable_schedule) ! 0) = Failed
   \<and> status (items (run unreadable_env demo_request unreadable_schedule) ! 0) \<noteq> Downloading"
  by (simp add: unreadable_check unreadable_run)

text \<open>
  The same task meets the hypotheses of the amended claim.
\<close>

theorem duplicate_check_error_fails_item_witness:
  "skip_duplicates demo_request
   \<and> check_existing_file (dir_at unreadable_env 0) (info_title (resolved unreadable_env ! 0))
        (info_video_id_hash (resolved unreadable_env ! 0)) (audio_only demo_request)
        = Inl ''[Errno 13] Permission denied''
   \<and> status (items (run unreadable_env demo_request unreadable_schedule) ! 0) \<noteq> Downloading
   \<and> status (items (run unreadable_env demo_request unreadable_schedule) ! 0) = Failed
   \<and> error (items (run unreadable_env demo_request unreadable_schedule) ! 0)
        = ''[Errno 13] Permission denied''"
proof -
  have skip: "skip_duplicates demo_request" by (simp add: demo_request_def)
  from duplicate_check_error_fails_item [OF skip unreadable_check, of unreadable_schedule]
    unreadable_finished skip unreadable_check
  show ?thesis by simp
qed

subsection \<open>Every task can finish\<close>

lemma opc_done_step: "opc c = O_done \<Longrightarrow> opc (step env request c ev) = O_done"
  by (cases ev)
    (simp_all add: step_def process_download_enhanced_def send_video_progress_update_def
      work_frame)

lemma opc_done_steps: "opc c = O_done \<Longrightarrow> opc (foldl (step env request) c evs) = O_done"
  by (induction evs arbitrary: c) (simp_all add: opc_done_step)

lemma task_inv_steps:
  "task_inv env request c \<Longrightarrow> task_inv env request (foldl (step env request) c evs)"
  by (induction evs arbitrary: c) (simp_all add: task_inv_step)

lemma work_progress:
  assumes "i < length (pcs c)" "i < length (items c)" "i < length (resolved env)"
  shows "remaining (pcs (download_single_video env request i c) ! i) \<le> remaining (pcs c ! i) - 1"
  using assms by (auto simp: work_defs split: work_splits)

lemma work_repeat:
  assumes "task_inv env request c" "i < length (pcs c)"
  shows "remaining (pcs (foldl (step env request) c (replicate k (Work i))) ! i)
           \<le> remaining (pcs c ! i) - k
    \<and> length (pcs (foldl (step env request) c (replicate k (Work i)))) = length (pcs c)
    \<and> opc (foldl (step env request) c (replicate k (Work i))) = opc c
    \<and> (\<forall>j. j \<noteq> i \<longrightarrow> pcs (foldl (step env request) c (replicate k (Work i))) ! j = pcs c ! j)"
proof (induction k)
  case 0
  then show ?case by simp
next
  case (Suc k)
  let ?d = "foldl (step env request) c (replicate k (Work i))"
  have inv: "task_inv env request ?d" by (rule task_inv_steps [OF assms(1)])
  from Suc assms(2) have i: "i < length (pcs ?d)" by simp
  with inv have ii: "i < length (items ?d)" "i < length (resolved env)"
    by (auto simp: task_inv_def)
  have "replicate (Suc k) (Work i) = replicate k (Work i) @ [Work i]"
    by (simp add: replicate_append_same)
  then have "foldl (step env request) c (replicate (Suc k) (Work i))
      = download_single_video env request i ?d"
    by (simp add: step_def del: replicate_Suc)
  note e = this
  have "remaining (pcs ?d ! i) \<le> remaining (pcs c ! i) - k"
    using Suc by simp
  with work_progress [OF i ii, of request]
  have "remaining (pcs (download_single_video env request i ?d) ! i)
      \<le> remaining (pcs c ! i) - Suc k"
    by arith
  with Suc e show ?case
    by (simp add: work_frame work_other del: replicate_Suc)
qed

lemma work_four:
  assumes "task_inv env request c" "i < length (pcs c)"
  shows "pcs (foldl (step env request) c (replicate 4 (Work i))) ! i = W_done"
proof -
  have "remaining (pcs (foldl (step env request) c (replicate 4 (Work i))) ! i) = 0"
    using work_repeat [OF assms, of 4] by (cases "pcs c ! i") simp_all
  then show ?thesis
    by (cases "pcs (foldl (step env request) c (replicate 4 (Work i))) ! i") simp_all
qed

lemma wave_schedule_runs:
  assumes "task_inv env request c"
  shows "n \<le> length (pcs c) \<Longrightarrow>
    (\<forall>j < n. pcs (foldl (step env request) c (wave_schedule n)) ! j = W_done)
    \<and> length (pcs (foldl (step env request) c (wave_schedule n))) = length (pcs c)
    \<and> opc (foldl (step env request) c (wave_schedule n)) = opc c"
proof (induction n)
  case 0
  then show ?case by (simp add: wave_schedule_def)
next
  case (Suc n)
  let ?d = "foldl (step env request) c (wave_schedule n)"
  let ?e = "foldl (step env request) ?d (replicate 4 (Work n))"
  have e: "foldl (step env request) c (wave_schedule (Suc n)) = ?e"
    by (simp add: wave_schedule_def del: replicate_Suc)
  have inv: "task_inv env request ?d" by (rule task_inv_steps [OF assms])
  from Suc have d: "\<forall>j < n. pcs ?d ! j = W_done" "length (pcs ?d) = length (pcs c)"
    "opc ?d = opc c" by simp_all
  with Suc.prems have n: "n < length (pcs ?d)" by simp
  note r = work_repeat [OF inv n, of 4]
  have "pcs ?e ! j = W_done" if "j < Suc n" for j
  proof (cases "j = n")
    case True
    then show ?thesis using work_four [OF inv n] by simp
  next
    case False
    with that d(1) r show ?thesis by simp
  qed
  with r d e show ?case by simp
qed

lemma orchestrate_four:
  "opc (run env request (replicate 4 Orchestrate)) = O_done
   \<or> (opc (run env request (replicate 4 Orchestrate)) = O_wave
       \<and> length (pcs (run env request (replicate 4 Orchestrate))) = length (resolved env))"
  by (simp add: run_def step_def start_download_def process_download_enhanced_def
      update_task_status_realtime_def task_failed_def numeral_eq_Suc)

text \<open>
  Every task can end, whatever the world answers: the finishing schedule always brings
  the orchestrator to its end, so final states are reachable for every task.
\<close>

theorem task_can_finish:
  "opc (run env request (finishing_schedule (length (resolved env)))) = O_done"
proof -
  let ?n = "length (resolved env)"
  let ?c = "run env request (replicate 4 Orchestrate)"
  let ?d = "foldl (step env request) ?c (wave_schedule ?n)"
  have run: "run env request (finishing_schedule ?n)
      = process_download_enhanced env request ?d"
    by (simp add: run_def finishing_schedule_def step_def del: replicate_Suc)
  have inv: "task_inv env request ?c" by (rule task_inv_run)
  from orchestrate_four [of env request] show ?thesis
  proof
    assume "opc ?c = O_done"
    then have "opc ?d = O_done" by (rule opc_done_steps)
    then show ?thesis by (simp add: run process_download_enhanced_def)
  next
    assume w: "opc ?c = O_wave \<and> length (pcs ?c) = ?n"
    with wave_schedule_runs [OF inv, of ?n]
    have d: "\<forall>j < ?n. pcs ?d ! j = W_done" "length (pcs ?d) = ?n" "opc ?d = O_wave"
      by simp_all
    then have "list_all (\<lambda>pc. pc = W_done) (pcs ?d)" by (simp add: list_all_length)
    with d(3) show ?thesis
      by (simp add: run process_download_enhanced_def task_failed_def
          update_task_status_realtime_def)
  qed
qed

end
